theory Spec2Isabelle
  imports Complex_Main "HOL-Library.Sublist"
begin

section \<open>Data model\<close>

text \<open>
  The tree of \<^verbatim>\<open>src/src/App.tsx\<close>. \<^verbatim>\<open>TreeNodeData\<close> has two optional
  fields, \<^verbatim>\<open>subtopics?\<close> and \<^verbatim>\<open>_isLoading?\<close>; an absent field is \<open>None\<close>,
  so that an absent and an empty \<^verbatim>\<open>subtopics\<close> (or an absent and a false flag)
  are different values, as they are for a deep comparison of the objects.
\<close>

datatype TreeNodeData = TreeNodeData
  (title: string)
  (description: string)
  (subtopics: "TreeNodeData list option")
  (isLoading: "bool option")

record KnowledgeTree =
  topic :: string
  tree_description :: string
  tree_subtopics :: "TreeNodeData list"

section \<open>Path-addressed update\<close>

text \<open>\<^verbatim>\<open>node.subtopics || []\<close>: an array is truthy, \<^verbatim>\<open>undefined\<close> is not.\<close>

definition subtopics_or_empty :: "TreeNodeData \<Rightarrow> TreeNodeData list" where
  "subtopics_or_empty node = (case subtopics node of None \<Rightarrow> [] | Some s \<Rightarrow> s)"

text \<open>
  \<^verbatim>\<open>updateNodeState\<close>. Indices are JavaScript numbers, here integers, as the index
  paths that \<^verbatim>\<open>layout\<close> builds are (a negative index passes the guard and matches
  no position of \<^verbatim>\<open>map\<close>, as a fractional one would). \<^verbatim>\<open>path[0]\<close> is
  \<^verbatim>\<open>undefined\<close> exactly for the empty path, and \<^verbatim>\<open>path.length === 1\<close> exactly
  when the tail \<^verbatim>\<open>path.slice(1)\<close> is empty.
\<close>

fun updateNodeState ::
  "TreeNodeData list \<Rightarrow> int list \<Rightarrow> (TreeNodeData \<Rightarrow> TreeNodeData) \<Rightarrow> TreeNodeData list"
where
  "updateNodeState nodes [] updater = nodes"
| "updateNodeState nodes (index # rest) updater =
     (if index \<ge> int (length nodes) then nodes
      else map (\<lambda>(i, node).
             if int i = index then
               (if rest = [] then updater node
                else TreeNodeData (title node) (description node)
                       (Some (updateNodeState (subtopics_or_empty node) rest updater))
                       (isLoading node))
             else node)
           (enumerate 0 nodes))"

text \<open>The state update of \<^verbatim>\<open>handleExpand\<close> on a tree that is not null:
  \<^verbatim>\<open>{ ...prevTree, subtopics: updateNodeState(prevTree.subtopics, path, updater) }\<close>.\<close>

definition applyAt ::
  "KnowledgeTree \<Rightarrow> int list \<Rightarrow> (TreeNodeData \<Rightarrow> TreeNodeData) \<Rightarrow> KnowledgeTree"
where
  "applyAt prevTree path updater =
     prevTree\<lparr>tree_subtopics := updateNodeState (tree_subtopics prevTree) path updater\<rparr>"

text \<open>The three updaters of \<^verbatim>\<open>handleExpand\<close>.\<close>

definition markLoading :: "TreeNodeData \<Rightarrow> TreeNodeData" where
  "markLoading node = TreeNodeData (title node) (description node) (subtopics node) (Some True)"

definition replaceChildrenClearLoading :: "TreeNodeData list \<Rightarrow> TreeNodeData \<Rightarrow> TreeNodeData" where
  "replaceChildrenClearLoading expandedData node =
     TreeNodeData (title node) (description node) (Some expandedData) (Some False)"

definition clearLoadingOnly :: "TreeNodeData \<Rightarrow> TreeNodeData" where
  "clearLoadingOnly node = TreeNodeData (title node) (description node) (subtopics node) (Some False)"

section \<open>Paths into the tree\<close>

text \<open>
  The node that an index path addresses below a sequence of nodes, descending through
  \<^verbatim>\<open>subtopics || []\<close> as \<^verbatim>\<open>updateNodeState\<close> does; \<open>None\<close> when an index
  is not a position of the sequence it indexes, and for the empty path, which names no
  element of the sequence.
\<close>

fun nodeAt :: "TreeNodeData list \<Rightarrow> int list \<Rightarrow> TreeNodeData option" where
  "nodeAt nodes [] = None"
| "nodeAt nodes (i # rest) =
     (if 0 \<le> i \<and> i < int (length nodes)
      then (if rest = [] then Some (nodes ! nat i)
            else nodeAt (subtopics_or_empty (nodes ! nat i)) rest)
      else None)"

text \<open>
  A path is in bounds when each of its indices is a zero-based position of the
  sequence reached at its depth; it is out of bounds at some depth otherwise. The empty
  path has no index and is in bounds.
\<close>

fun inBounds :: "TreeNodeData list \<Rightarrow> int list \<Rightarrow> bool" where
  "inBounds nodes [] = True"
| "inBounds nodes (i # rest) =
     (0 \<le> i \<and> i < int (length nodes) \<and> inBounds (subtopics_or_empty (nodes ! nat i)) rest)"

text \<open>Every node that the update descends through has a \<^verbatim>\<open>subtopics\<close> field.\<close>

fun presentAlong :: "TreeNodeData list \<Rightarrow> int list \<Rightarrow> bool" where
  "presentAlong nodes [] = True"
| "presentAlong nodes (i # rest) =
     (if 0 \<le> i \<and> i < int (length nodes) \<and> rest \<noteq> []
      then subtopics (nodes ! nat i) \<noteq> None \<and> presentAlong (subtopics_or_empty (nodes ! nat i)) rest
      else True)"

text \<open>The tree with every absent \<^verbatim>\<open>subtopics\<close> read as the empty sequence.\<close>

primrec normalizeSubtopics :: "TreeNodeData \<Rightarrow> TreeNodeData" where
  "normalizeSubtopics (TreeNodeData t d s l) =
     TreeNodeData t d (Some (case map_option (map normalizeSubtopics) s of None \<Rightarrow> [] | Some xs \<Rightarrow> xs)) l"

text \<open>The root as a node, \<^verbatim>\<open>{ ...treeData, title: treeData.topic }\<close>: the tree's own
  \<^verbatim>\<open>subtopics\<close> is always present and it has no loading flag.\<close>

definition rootDataNode :: "KnowledgeTree \<Rightarrow> TreeNodeData" where
  "rootDataNode treeData =
     TreeNodeData (topic treeData) (tree_description treeData) (Some (tree_subtopics treeData)) None"

text \<open>What a node holds apart from the contents of its children.\<close>

definition ownFields :: "TreeNodeData \<Rightarrow> string \<times> string \<times> bool option \<times> nat" where
  "ownFields node = (title node, description node, isLoading node, length (subtopics_or_empty node))"

section \<open>Completion of an expansion request\<close>

text \<open>
  The end of \<^verbatim>\<open>handleExpand\<close>, after \<^verbatim>\<open>generateTree\<close> has returned:
  \<^verbatim>\<open>expandedData\<close> is the parsed array of children, or \<open>None\<close> for the
  \<^verbatim>\<open>null\<close> that \<^verbatim>\<open>generateTree\<close> returns when the provider call or the parse of
  its answer has thrown. The functional state update runs on the tree that is current
  then, which may be \<^verbatim>\<open>null\<close>.
\<close>

definition handleExpand_end ::
  "KnowledgeTree option \<Rightarrow> int list \<Rightarrow> TreeNodeData list option \<Rightarrow> KnowledgeTree option"
where
  "handleExpand_end prevTree path expandedData =
     (case expandedData of
        Some children \<Rightarrow>
          (case prevTree of
             Some t \<Rightarrow> Some (applyAt t path (replaceChildrenClearLoading children))
           | None \<Rightarrow> None)
      | None \<Rightarrow>
          (case prevTree of
             Some t \<Rightarrow> Some (applyAt t path clearLoadingOnly)
           | None \<Rightarrow> None))"


section \<open>Layout\<close>

text \<open>
  The layout constants. The coordinates that \<^verbatim>\<open>layout\<close> computes are real numbers
  here, without rounding: a leaf gets the value of the counter, \<open>50 + 70 * i\<close>, and an
  internal node a midpoint of two earlier coordinates, which has at most one binary
  digit more than they have. For a tree of up to thirty levels and a thousand leaves
  these values are binary64 numbers and each operation on them is exact; a deeper tree
  is outside this part of the model. The arithmetic of the centring offset rounds for
  common inputs, and is modelled with its rounding below.
\<close>

definition LEVEL_SPACING :: real where "LEVEL_SPACING = 220"
definition VERTICAL_SPACING :: real where "VERTICAL_SPACING = 30"
definition NODE_HEIGHT :: real where "NODE_HEIGHT = 40"
definition PADDING :: real where "PADDING = 50"

text \<open>
  A \<^verbatim>\<open>ProcessedNode\<close> is a mutable object: \<^verbatim>\<open>layout\<close> creates it with placeholder
  fields, hands it to the layout of its children as their \<^verbatim>\<open>parent\<close>, assigns
  \<^verbatim>\<open>children\<close> and \<^verbatim>\<open>y\<close> afterwards, and the final loop over
  \<^verbatim>\<open>allNodes\<close> adds the offset to the same objects. The objects therefore live in a
  store, a list indexed by address (allocation order), and \<^verbatim>\<open>children\<close>,
  \<^verbatim>\<open>parent\<close>, \<^verbatim>\<open>allNodes\<close> and \<^verbatim>\<open>allEdges\<close> hold addresses. The first four
  fields are the spread \<^verbatim>\<open>...nodeData\<close>.
\<close>

record ProcessedNode =
  pn_title :: string
  pn_description :: string
  pn_subtopics :: "TreeNodeData list option"
  pn_isLoading :: "bool option"
  pn_x :: real
  pn_y :: real
  pn_children :: "nat list"
  pn_parent :: "nat option"
  pn_path :: string
  pn_indexPath :: "int list"

text \<open>The variables that the closure \<^verbatim>\<open>layout\<close> mutates, with the store.\<close>

record LayoutState =
  heap :: "ProcessedNode list"
  allNodes :: "nat list"
  allEdges :: "(nat \<times> nat) list"
  yCounter :: real
  maxDepth :: nat

text \<open>
  \<^verbatim>\<open>layout\<close> returns the address of the node it has created. \<open>layout_map\<close> is
  \<^verbatim>\<open>nodeData.subtopics.map((subtopic, index) => layout(...))\<close>, left to right. A string
  is truthy when it is not empty, an object always.
\<close>

fun layout ::
  "TreeNodeData \<Rightarrow> nat \<Rightarrow> nat option \<Rightarrow> string \<Rightarrow> int list \<Rightarrow> LayoutState \<Rightarrow> nat \<times> LayoutState"
and layout_map ::
  "TreeNodeData list \<Rightarrow> nat \<Rightarrow> nat \<Rightarrow> nat \<Rightarrow> string \<Rightarrow> int list \<Rightarrow> LayoutState
     \<Rightarrow> nat list \<times> LayoutState"
where
  "layout (TreeNodeData ttl descr subs ld) depth parent parentPath indexPath s =
     (let s1 = s\<lparr>maxDepth := max (maxDepth s) depth\<rparr>;
          processedNode = length (heap s1);
          path = (if parentPath \<noteq> [] then parentPath @ '' > '' @ ttl else ttl);
          s2 = s1\<lparr>heap := heap s1 @
                 [\<lparr>pn_title = ttl, pn_description = descr, pn_subtopics = subs,
                   pn_isLoading = ld,
                   pn_x = real depth * LEVEL_SPACING + PADDING,
                   pn_y = 0,
                   pn_children = [],
                   pn_parent = parent,
                   pn_path = path,
                   pn_indexPath = indexPath\<rparr>]\<rparr>;
          s3 = (case subs of
                  Some (c # cs) \<Rightarrow>
                    (case layout_map (c # cs) 0 (depth + 1) processedNode path indexPath s2 of
                       (children, s') \<Rightarrow>
                         (let firstChild = hd children;
                              lastChild = last children
                          in s'\<lparr>heap := (heap s')[processedNode :=
                               (heap s' ! processedNode)
                                 \<lparr>pn_children := children,
                                  pn_y := pn_y (heap s' ! firstChild)
                                          + (pn_y (heap s' ! lastChild) - pn_y (heap s' ! firstChild)) / 2\<rparr>]\<rparr>))
                | _ \<Rightarrow>
                    s2\<lparr>heap := (heap s2)[processedNode :=
                          (heap s2 ! processedNode)\<lparr>pn_y := yCounter s2\<rparr>],
                       yCounter := yCounter s2 + (NODE_HEIGHT + VERTICAL_SPACING)\<rparr>);
          s4 = s3\<lparr>allNodes := allNodes s3 @ [processedNode]\<rparr>;
          s5 = (case parent of
                  Some p \<Rightarrow> s4\<lparr>allEdges := allEdges s4 @ [(p, processedNode)]\<rparr>
                | None \<Rightarrow> s4)
      in (processedNode, s5))"
| "layout_map [] index depth parent parentPath indexPath s = ([], s)"
| "layout_map (subtopic # rest) index depth parent parentPath indexPath s =
     (case layout subtopic depth (Some parent) parentPath (indexPath @ [int index]) s of
        (child, s1) \<Rightarrow>
          (case layout_map rest (index + 1) depth parent parentPath indexPath s1 of
             (children, s2) \<Rightarrow> (child # children, s2)))"

section \<open>Traversals of the tree\<close>

text \<open>The number of nodes and of leaves of a subtree (a leaf has absent or empty
  \<^verbatim>\<open>subtopics\<close>), and its nodes in post-order, each with its index path.\<close>

fun nodeCount :: "TreeNodeData \<Rightarrow> nat"
and nodeCounts :: "TreeNodeData list \<Rightarrow> nat"
where
  "nodeCount (TreeNodeData ttl descr subs ld) = 1 + (case subs of None \<Rightarrow> 0 | Some cs \<Rightarrow> nodeCounts cs)"
| "nodeCounts [] = 0"
| "nodeCounts (c # cs) = nodeCount c + nodeCounts cs"

fun leafCount :: "TreeNodeData \<Rightarrow> nat"
and leafCounts :: "TreeNodeData list \<Rightarrow> nat"
where
  "leafCount (TreeNodeData ttl descr subs ld) =
     (case subs of None \<Rightarrow> 1 | Some [] \<Rightarrow> 1 | Some (c # cs) \<Rightarrow> leafCounts (c # cs))"
| "leafCounts [] = 0"
| "leafCounts (c # cs) = leafCount c + leafCounts cs"

fun postorder :: "TreeNodeData \<Rightarrow> int list \<Rightarrow> (int list \<times> TreeNodeData) list"
and postorders :: "TreeNodeData list \<Rightarrow> nat \<Rightarrow> int list \<Rightarrow> (int list \<times> TreeNodeData) list"
where
  "postorder (TreeNodeData ttl descr subs ld) ip =
     (case subs of None \<Rightarrow> [] | Some cs \<Rightarrow> postorders cs 0 ip) @ [(ip, TreeNodeData ttl descr subs ld)]"
| "postorders [] i ip = []"
| "postorders (c # cs) i ip = postorder c (ip @ [int i]) @ postorders cs (i + 1) ip"

section \<open>Rounding to binary64\<close>

text \<open>
  A JavaScript number is an IEEE 754 binary64 value, and each arithmetic operation
  returns the exact result rounded to the nearest such value, ties to the even
  significand. \<open>binary64\<close> is that rounding for a real number: with \<open>e\<close> the
  exponent of \<open>x\<close> (\<open>2^e \<le> |x| < 2^(e+1)\<close>), it rounds \<open>x\<close> to the nearest multiple
  of \<open>2^(e-52)\<close>. The exponent is not bounded: overflow to \<^verbatim>\<open>Infinity\<close> and
  subnormal numbers are not modelled (the coordinates of a layout are far from both),
  nor is the sign of zero.
\<close>

fun bitLength :: "nat \<Rightarrow> nat" where
  "bitLength n = (if n = 0 then 0 else Suc (bitLength (n div 2)))"

definition exponent :: "real \<Rightarrow> int" where
  "exponent x =
     (if 1 \<le> \<bar>x\<bar> then int (bitLength (nat \<lfloor>\<bar>x\<bar>\<rfloor>)) - 1
      else - int (bitLength (nat (\<lceil>1 / \<bar>x\<bar>\<rceil> - 1))))"

definition roundEven :: "real \<Rightarrow> int" where
  "roundEven y =
     (let f = \<lfloor>y\<rfloor>; d = y - of_int f
      in if d < 1 / 2 then f else if 1 / 2 < d then f + 1 else if even f then f else f + 1)"

definition binary64 :: "real \<Rightarrow> real" where
  "binary64 x =
     (if x = 0 then 0
      else of_int (roundEven (x / 2 powi (exponent x - 52))) * 2 powi (exponent x - 52))"

section \<open>The layout of a tree\<close>

text \<open>
  The body of the \<^verbatim>\<open>useMemo\<close> callback that computes \<^verbatim>\<open>{ nodes, edges }\<close>:
  nothing for a null tree; otherwise the layout of the root from the initial counters,
  then \<^verbatim>\<open>rootYOffset = (containerHeight / (2 * viewTransform.k)) - rootNode.y\<close> and the
  loop \<^verbatim>\<open>allNodes.forEach(node => { node.y += rootYOffset; })\<close> over the store, each
  of the four operations rounded. \<open>containerHeight\<close> is the height read from the DOM
  and \<open>k\<close> is \<^verbatim>\<open>viewTransform.k\<close>. The result carries the store, in which the
  addresses of \<open>res_nodes\<close> and \<open>res_edges\<close> are read.
\<close>

definition initialState :: LayoutState where
  "initialState = \<lparr>heap = [], allNodes = [], allEdges = [], yCounter = PADDING, maxDepth = 0\<rparr>"

record LayoutResult =
  res_nodes :: "nat list"
  res_edges :: "(nat \<times> nat) list"
  res_store :: "ProcessedNode list"

definition layoutTree :: "KnowledgeTree option \<Rightarrow> real \<Rightarrow> real \<Rightarrow> LayoutResult" where
  "layoutTree treeData containerHeight k =
     (case treeData of
        None \<Rightarrow> \<lparr>res_nodes = [], res_edges = [], res_store = []\<rparr>
      | Some t \<Rightarrow>
          (case layout (rootDataNode t) 0 None [] [] initialState of
             (rootNode, s) \<Rightarrow>
               (let rootYOffset =
                      binary64 (binary64 (containerHeight / binary64 (2 * k)) - pn_y (heap s ! rootNode))
                in \<lparr>res_nodes = allNodes s,
                    res_edges = allEdges s,
                    res_store =
                      foldl (\<lambda>h node. h[node := (h ! node)\<lparr>pn_y := binary64 (pn_y (h ! node) + rootYOffset)\<rparr>])
                        (heap s) (allNodes s)\<rparr>)))"

text \<open>The state when the call \<^verbatim>\<open>layout(rootDataNode, 0, null, '', [])\<close> has returned,
  before the centring loop.\<close>

definition rootLayout :: "KnowledgeTree \<Rightarrow> LayoutState" where
  "rootLayout t = snd (layout (rootDataNode t) 0 None [] [] initialState)"

section \<open>Vocabulary for the layout proofs\<close>

text \<open>The pieces of one call of \<^verbatim>\<open>layout\<close>: the path string, the object as it is
  created, the state after its creation, and the two pushes at the end.\<close>

definition nodePath :: "string \<Rightarrow> string \<Rightarrow> string" where
  "nodePath parentPath ttl = (if parentPath \<noteq> [] then parentPath @ '' > '' @ ttl else ttl)"

definition placeholder ::
  "TreeNodeData \<Rightarrow> nat \<Rightarrow> nat option \<Rightarrow> string \<Rightarrow> int list \<Rightarrow> ProcessedNode"
where
  "placeholder n depth parent parentPath indexPath =
     \<lparr>pn_title = title n, pn_description = description n, pn_subtopics = subtopics n,
      pn_isLoading = isLoading n,
      pn_x = real depth * LEVEL_SPACING + PADDING, pn_y = 0, pn_children = [],
      pn_parent = parent, pn_path = nodePath parentPath (title n), pn_indexPath = indexPath\<rparr>"

definition entered ::
  "LayoutState \<Rightarrow> TreeNodeData \<Rightarrow> nat \<Rightarrow> nat option \<Rightarrow> string \<Rightarrow> int list \<Rightarrow> LayoutState"
where
  "entered s n depth parent parentPath indexPath =
     s\<lparr>maxDepth := max (maxDepth s) depth,
       heap := heap s @ [placeholder n depth parent parentPath indexPath]\<rparr>"

definition pushed :: "nat \<Rightarrow> nat option \<Rightarrow> LayoutState \<Rightarrow> LayoutState" where
  "pushed a parent s =
     s\<lparr>allNodes := allNodes s @ [a],
       allEdges := (case parent of Some p \<Rightarrow> allEdges s @ [(p, a)] | None \<Rightarrow> allEdges s)\<rparr>"

text \<open>A leaf for the layout: \<^verbatim>\<open>subtopics\<close> absent or empty.\<close>

definition isLeaf :: "TreeNodeData \<Rightarrow> bool" where
  "isLeaf n = (subtopics n = None \<or> subtopics n = Some [])"

text \<open>The tree data that a processed node carries (the spread \<^verbatim>\<open>...nodeData\<close>).\<close>

definition nodeData :: "ProcessedNode \<Rightarrow> TreeNodeData" where
  "nodeData p = TreeNodeData (pn_title p) (pn_description p) (pn_subtopics p) (pn_isLoading p)"

text \<open>
  Addresses are given out in pre-order: a node laid out when the store has \<open>a\<close>
  objects gets address \<open>a\<close>, and its children follow. \<open>childAddrs\<close> are the
  addresses of the roots of a sequence of subtrees, \<open>postAddrs\<close> the addresses of a
  subtree in the order of the pushes onto \<^verbatim>\<open>allNodes\<close>.
\<close>

fun childAddrs :: "TreeNodeData list \<Rightarrow> nat \<Rightarrow> nat list" where
  "childAddrs [] a = []"
| "childAddrs (c # cs) a = a # childAddrs cs (a + nodeCount c)"

fun postAddrs :: "TreeNodeData \<Rightarrow> nat \<Rightarrow> nat list"
and postAddrss :: "TreeNodeData list \<Rightarrow> nat \<Rightarrow> nat list"
where
  "postAddrs (TreeNodeData ttl descr subs ld) a =
     (case subs of None \<Rightarrow> [] | Some cs \<Rightarrow> postAddrss cs (a + 1)) @ [a]"
| "postAddrss [] a = []"
| "postAddrss (c # cs) a = postAddrs c a @ postAddrss cs (a + nodeCount c)"

text \<open>
  The object at address \<open>b\<close> of a store is centred on its children: a leaf has no
  children; an internal node has one child object per subtopic, in order, and its
  \<open>y\<close> is the midpoint of the \<open>y\<close> of the first and of the last of them, written
  as the source computes it.
\<close>

definition centredOnChildren :: "ProcessedNode list \<Rightarrow> nat \<Rightarrow> bool" where
  "centredOnChildren h b =
     (if isLeaf (nodeData (h ! b)) then pn_children (h ! b) = []
      else pn_children (h ! b) \<noteq> [] \<and>
           map (\<lambda>c. nodeData (h ! c)) (pn_children (h ! b)) = subtopics_or_empty (nodeData (h ! b)) \<and>
           pn_y (h ! b) =
             pn_y (h ! hd (pn_children (h ! b)))
               + (pn_y (h ! last (pn_children (h ! b))) - pn_y (h ! hd (pn_children (h ! b)))) / 2)"

text \<open>The leaf objects of a layout state, in the order of \<^verbatim>\<open>allNodes\<close>.\<close>

definition leafNodes :: "LayoutState \<Rightarrow> nat list" where
  "leafNodes s = filter (\<lambda>b. isLeaf (nodeData (heap s ! b))) (allNodes s)"

text \<open>
  The quantities of the centring step as the code computes them: the quotient
  \<^verbatim>\<open>containerHeight / (2 * viewTransform.k)\<close> and \<^verbatim>\<open>rootYOffset\<close>.
\<close>

definition centreLine :: "real \<Rightarrow> real \<Rightarrow> real" where
  "centreLine containerHeight k = binary64 (containerHeight / binary64 (2 * k))"

definition rootYOffset :: "KnowledgeTree \<Rightarrow> real \<Rightarrow> real \<Rightarrow> real" where
  "rootYOffset t containerHeight k =
     binary64 (centreLine containerHeight k - pn_y (heap (rootLayout t) ! 0))"

section \<open>Clicks and expansion requests\<close>

text \<open>
  \<^verbatim>\<open>Node.handleNodeClick\<close>: the call of \<^verbatim>\<open>onExpand\<close> that a click on a rendered
  node makes, if any, with its arguments (\<^verbatim>\<open>onSelect\<close> only records the selection).
  \<^verbatim>\<open>!node._isLoading\<close> holds for an absent and for a false flag.
\<close>

definition canExpand :: "ProcessedNode \<Rightarrow> bool" where
  "canExpand node = (case pn_subtopics node of None \<Rightarrow> True | Some s \<Rightarrow> length s = 0)"

definition handleNodeClick :: "ProcessedNode \<Rightarrow> (int list \<times> string) option" where
  "handleNodeClick node =
     (if canExpand node \<and> pn_isLoading node \<noteq> Some True
      then Some (pn_indexPath node, pn_title node) else None)"

text \<open>
  The state that \<^verbatim>\<open>handleExpand\<close> reads and writes: the current tree and the
  requests to the provider that have been sent and not yet answered, each with the
  \<^verbatim>\<open>path\<close> and \<^verbatim>\<open>nodeTitle\<close> that its \<^verbatim>\<open>handleExpand\<close> call holds.
\<close>

record AppState =
  treeData :: "KnowledgeTree option"
  pending :: "(int list \<times> string) list"

text \<open>
  The start of \<^verbatim>\<open>handleExpand\<close>, up to the \<^verbatim>\<open>await\<close>: nothing for a null tree;
  otherwise the functional update that marks the node as loading, and the request.
\<close>

definition handleExpand_begin :: "AppState \<Rightarrow> int list \<Rightarrow> string \<Rightarrow> AppState" where
  "handleExpand_begin st path nodeTitle =
     (case treeData st of
        None \<Rightarrow> st
      | Some t \<Rightarrow>
          st\<lparr>treeData := Some (applyAt t path markLoading),
             pending := pending st @ [(path, nodeTitle)]\<rparr>)"

section \<open>Example trees\<close>

definition exTree2 :: KnowledgeTree where
  "exTree2 = \<lparr>topic = ''X'', tree_description = ''d'',
     tree_subtopics =
       [TreeNodeData ''A'' ''a''
          (Some [TreeNodeData ''A1'' ''a1'' (Some []) None, TreeNodeData ''A2'' ''a2'' None None]) None,
        TreeNodeData ''B'' ''b'' (Some []) None]\<rparr>"

definition exTree3 :: KnowledgeTree where
  "exTree3 = \<lparr>topic = ''X'', tree_description = ''d'',
     tree_subtopics =
       [TreeNodeData ''A'' ''a'' (Some []) (Some True),
        TreeNodeData ''B'' ''b'' (Some []) None]\<rparr>"

definition exRootOnly :: AppState where
  "exRootOnly = \<lparr>treeData = Some \<lparr>topic = ''X'', tree_description = ''d'', tree_subtopics = []\<rparr>,
                  pending = []\<rparr>"

definition exIdle :: AppState where
  "exIdle = \<lparr>treeData = Some \<lparr>topic = ''X'', tree_description = ''d'',
               tree_subtopics = [TreeNodeData ''A'' ''a'' (Some []) None,
                                 TreeNodeData ''B'' ''b'' (Some []) None]\<rparr>,
             pending = []\<rparr>"

definition exTreeAB :: KnowledgeTree where
  "exTreeAB = \<lparr>topic = ''X'', tree_description = ''d'',
     tree_subtopics = [TreeNodeData ''A'' ''a'' (Some []) None,
                       TreeNodeData ''B'' ''b'' (Some []) None]\<rparr>"

section \<open>The path-addressed update: lemmas\<close>

lemma map_enumerate_upd:
  "map (\<lambda>(i, node). if i = k then f node else node) (enumerate 0 nodes) =
     (if k < length nodes then nodes[k := f (nodes ! k)] else nodes)"
  by (rule nth_equalityI) (auto simp: nth_enumerate_eq)

lemma updateNodeState_step:
  "updateNodeState nodes (i # rest) u =
     (if 0 \<le> i \<and> i < int (length nodes)
      then nodes[nat i :=
             (if rest = [] then u (nodes ! nat i)
              else TreeNodeData (title (nodes ! nat i)) (description (nodes ! nat i))
                     (Some (updateNodeState (subtopics_or_empty (nodes ! nat i)) rest u))
                     (isLoading (nodes ! nat i)))]
      else nodes)"
proof (cases "0 \<le> i \<and> i < int (length nodes)")
  case True
  then have eq: "\<And>j::nat. (int j = i) = (j = nat i)" by auto
  from True have lt: "nat i < length nodes" by auto
  show ?thesis using True lt
    by (simp add: eq map_enumerate_upd)
next
  case False
  show ?thesis
  proof (cases "i \<ge> int (length nodes)")
    case True then show ?thesis by simp
  next
    case F: False
    with False have neg: "i < 0" by simp
    then have "\<And>j::nat. int j \<noteq> i" by auto
    then have "map (\<lambda>(j, node). if int j = i then
               (if rest = [] then u node
                else TreeNodeData (title node) (description node)
                       (Some (updateNodeState (subtopics_or_empty node) rest u))
                       (isLoading node))
             else node) (enumerate 0 nodes) = nodes"
      by (intro nth_equalityI) (auto simp: nth_enumerate_eq)
    then show ?thesis using neg F by simp
  qed
qed

lemma length_updateNodeState [simp]: "length (updateNodeState nodes p u) = length nodes"
  by (cases p) (simp_all add: updateNodeState_step del: updateNodeState.simps(2))


declare updateNodeState.simps(2) [simp del]

lemma updateNodeState_frame:
  "\<not> prefix p q \<Longrightarrow> \<not> prefix q p \<Longrightarrow> nodeAt (updateNodeState nodes p u) q = nodeAt nodes q"
proof (induction p arbitrary: q nodes)
  case Nil
  then show ?case by simp
next
  case (Cons i rest)
  from Cons.prems obtain j qs where q: "q = j # qs" by (cases q) auto
  show ?case
  proof (cases "j = i")
    case False
    then show ?thesis by (auto simp: q updateNodeState_step)
  next
    case True
    with Cons.prems q have np: "\<not> prefix rest qs" "\<not> prefix qs rest" by auto
    then have ne: "rest \<noteq> []" "qs \<noteq> []" by auto
    show ?thesis
    proof (cases "0 \<le> i \<and> i < int (length nodes)")
      case False
      then show ?thesis by (subst updateNodeState_step) auto
    next
      case ib: True
      then have lt: "nat i < length nodes" by auto
      show ?thesis using True ne ib lt Cons.IH[OF np]
        by (simp add: q updateNodeState_step subtopics_or_empty_def)
    qed
  qed
qed

lemma updateNodeState_target:
  "nodeAt nodes p = Some n \<Longrightarrow> nodeAt (updateNodeState nodes p u) p = Some (u n)"
proof (induction p arbitrary: nodes)
  case Nil
  then show ?case by simp
next
  case (Cons i rest)
  then show ?case
    by (auto simp: updateNodeState_step subtopics_or_empty_def split: if_splits)
qed

lemma updateNodeState_ancestor:
  "inBounds nodes p \<Longrightarrow> strict_prefix q p \<Longrightarrow>
     map_option ownFields (nodeAt (updateNodeState nodes p u) q) = map_option ownFields (nodeAt nodes q)"
proof (induction p arbitrary: q nodes)
  case Nil
  then show ?case by simp
next
  case (Cons i rest)
  show ?case
  proof (cases q)
    case Nil
    then show ?thesis by simp
  next
    case (Cons j qs)
    with Cons.prems have j: "j = i" and sp: "strict_prefix qs rest" by auto
    then have ne: "rest \<noteq> []" by auto
    from Cons.prems have ib: "0 \<le> i" "i < int (length nodes)"
      "inBounds (subtopics_or_empty (nodes ! nat i)) rest" by auto
    show ?thesis
    proof (cases "qs = []")
      case True
      then show ?thesis using ib ne j Cons
        by (simp add: updateNodeState_step ownFields_def subtopics_or_empty_def)
    next
      case False
      then show ?thesis using ib ne j Cons Cons.IH[OF ib(3) sp]
        by (simp add: updateNodeState_step subtopics_or_empty_def)
    qed
  qed
qed

lemma inBounds_nodeAt: "p \<noteq> [] \<Longrightarrow> inBounds nodes p = (nodeAt nodes p \<noteq> None)"
proof (induction p arbitrary: nodes)
  case Nil then show ?case by simp
next
  case (Cons i rest)
  then show ?case by (cases "rest = []") auto
qed

lemma updateNodeState_oob_present:
  "\<not> inBounds nodes p \<Longrightarrow> presentAlong nodes p \<Longrightarrow> updateNodeState nodes p u = nodes"
proof (induction p arbitrary: nodes)
  case Nil then show ?case by simp
next
  case (Cons i rest)
  show ?case
  proof (cases "0 \<le> i \<and> i < int (length nodes)")
    case False
    then show ?thesis by (subst updateNodeState_step) auto
  next
    case True
    with Cons.prems have ne: "rest \<noteq> []" and oob: "\<not> inBounds (subtopics_or_empty (nodes ! nat i)) rest"
      by auto
    with True Cons.prems have pr: "subtopics (nodes ! nat i) \<noteq> None"
      "presentAlong (subtopics_or_empty (nodes ! nat i)) rest" by auto
    from pr(1) obtain s where s: "subtopics (nodes ! nat i) = Some s" by auto
    have "updateNodeState (subtopics_or_empty (nodes ! nat i)) rest u = s"
      using Cons.IH[OF oob pr(2)] s by (simp add: subtopics_or_empty_def)
    moreover have "TreeNodeData (title (nodes ! nat i)) (description (nodes ! nat i)) (Some s)
      (isLoading (nodes ! nat i)) = nodes ! nat i"
      using s by (cases "nodes ! nat i") simp
    ultimately show ?thesis using True ne
      by (simp add: updateNodeState_step list_update_same_conv)
  qed
qed

lemma normalize_unfold:
  "normalizeSubtopics n = TreeNodeData (title n) (description n) (Some (map normalizeSubtopics (subtopics_or_empty n))) (isLoading n)"
  by (cases n) (simp add: subtopics_or_empty_def split: option.splits)

lemma updateNodeState_oob_normalize:
  "\<not> inBounds nodes p \<Longrightarrow> map normalizeSubtopics (updateNodeState nodes p u) = map normalizeSubtopics nodes"
proof (induction p arbitrary: nodes)
  case Nil then show ?case by simp
next
  case (Cons i rest)
  show ?case
  proof (cases "0 \<le> i \<and> i < int (length nodes)")
    case False
    then show ?thesis by (subst updateNodeState_step) auto
  next
    case True
    with Cons.prems have ne: "rest \<noteq> []" and oob: "\<not> inBounds (subtopics_or_empty (nodes ! nat i)) rest"
      by auto
    let ?n = "nodes ! nat i"
    let ?n' = "TreeNodeData (title ?n) (description ?n)
                     (Some (updateNodeState (subtopics_or_empty ?n) rest u)) (isLoading ?n)"
    have eq: "normalizeSubtopics ?n' = normalizeSubtopics ?n"
      using Cons.IH[OF oob] by (simp add: normalize_unfold[of ?n] subtopics_or_empty_def)
    have "updateNodeState nodes (i # rest) u = nodes[nat i := ?n']"
      using True ne by (simp add: updateNodeState_step)
    then have "map normalizeSubtopics (updateNodeState nodes (i # rest) u) = (map normalizeSubtopics nodes)[nat i := normalizeSubtopics ?n']"
      by (simp only: map_update)
    also have "\<dots> = (map normalizeSubtopics nodes)[nat i := normalizeSubtopics ?n]"
      by (simp only: eq)
    also have "\<dots> = map normalizeSubtopics nodes"
      by (metis list_update_id map_update)
    finally show ?thesis .
  qed
qed

lemma nodeAt_append:
  "p \<noteq> [] \<Longrightarrow> r \<noteq> [] \<Longrightarrow>
     nodeAt nodes (p @ r) = (case nodeAt nodes p of None \<Rightarrow> None | Some n \<Rightarrow> nodeAt (subtopics_or_empty n) r)"
proof (induction p arbitrary: nodes)
  case Nil then show ?case by simp
next
  case (Cons i rest)
  then show ?case by (cases "rest = []") auto
qed

section \<open>The tree store: claims\<close>

text \<open>
  C1 (as amended). For a path that is out of bounds at some depth, \<^verbatim>\<open>applyAt\<close> never
  applies the updater and returns a tree that is the input tree up to reading an absent
  \<^verbatim>\<open>subtopics\<close> as the empty sequence; it is the input tree itself, in value, when
  every node the path descends through has a \<^verbatim>\<open>subtopics\<close> field. The function is
  total: no branch throws. (A node on the path whose \<^verbatim>\<open>subtopics\<close> is absent comes back
  with \<^verbatim>\<open>subtopics: []\<close>, so plain value equality fails there.)
\<close>

theorem applyAt_out_of_bounds:
  assumes "\<not> inBounds (tree_subtopics t) p"
  shows "(presentAlong (tree_subtopics t) p \<longrightarrow> applyAt t p u = t) \<and>
         topic (applyAt t p u) = topic t \<and>
         tree_description (applyAt t p u) = tree_description t \<and>
         map normalizeSubtopics (tree_subtopics (applyAt t p u)) = map normalizeSubtopics (tree_subtopics t)"
  using assms
  by (simp add: applyAt_def updateNodeState_oob_present updateNodeState_oob_normalize)

theorem applyAt_out_of_bounds_witness:
  "\<not> inBounds [TreeNodeData ''A'' ''a'' (Some []) None] [0, 0] \<and>
   presentAlong [TreeNodeData ''A'' ''a'' (Some []) None] [0, 0] \<and>
   applyAt \<lparr>topic = ''X'', tree_description = ''d'',
            tree_subtopics = [TreeNodeData ''A'' ''a'' (Some []) None]\<rparr> [0, 0] markLoading
     = \<lparr>topic = ''X'', tree_description = ''d'',
        tree_subtopics = [TreeNodeData ''A'' ''a'' (Some []) None]\<rparr>"
proof -
  let ?t = "\<lparr>topic = ''X'', tree_description = ''d'',
            tree_subtopics = [TreeNodeData ''A'' ''a'' (Some []) None]\<rparr>"
  have oob: "\<not> inBounds (tree_subtopics ?t) [0, 0]"
    by (simp add: subtopics_or_empty_def)
  have pr: "presentAlong (tree_subtopics ?t) [0, 0]"
    by (simp add: subtopics_or_empty_def)
  from applyAt_out_of_bounds [OF oob, of markLoading] pr
  have "applyAt ?t [0, 0] markLoading = ?t" by blast
  with oob pr show ?thesis by simp
qed

theorem applyAt_out_of_bounds_absent_counterexample:
  "\<not> inBounds (tree_subtopics \<lparr>topic = ''X'', tree_description = ''d'',
            tree_subtopics = [TreeNodeData ''A'' ''a'' None None]\<rparr>) [0, 0] \<and>
   applyAt \<lparr>topic = ''X'', tree_description = ''d'',
            tree_subtopics = [TreeNodeData ''A'' ''a'' None None]\<rparr> [0, 0] markLoading
     \<noteq> \<lparr>topic = ''X'', tree_description = ''d'',
        tree_subtopics = [TreeNodeData ''A'' ''a'' None None]\<rparr>"
  by (simp add: applyAt_def subtopics_or_empty_def updateNodeState.simps(2))

text \<open>
  C2. For an in-bounds path, \<^verbatim>\<open>applyAt\<close> leaves in value every node that is off the
  path from the root to the target and not below the target (every path \<open>q\<close> that
  neither extends \<open>p\<close> nor is a prefix of it addresses the same node value before and
  after), and an ancestor of the target keeps its title, description, loading flag and
  number of children: only its \<^verbatim>\<open>subtopics\<close> sequence is rebuilt. The root's topic and
  description are kept too.
\<close>

theorem applyAt_frame:
  assumes "inBounds (tree_subtopics t) p"
  shows "topic (applyAt t p u) = topic t \<and>
         tree_description (applyAt t p u) = tree_description t \<and>
         length (tree_subtopics (applyAt t p u)) = length (tree_subtopics t) \<and>
         (\<forall>q. \<not> prefix p q \<and> \<not> prefix q p \<longrightarrow>
              nodeAt (tree_subtopics (applyAt t p u)) q = nodeAt (tree_subtopics t) q) \<and>
         (\<forall>q. strict_prefix q p \<longrightarrow>
              map_option ownFields (nodeAt (tree_subtopics (applyAt t p u)) q)
                = map_option ownFields (nodeAt (tree_subtopics t) q))"
  using assms
  by (simp add: applyAt_def updateNodeState_frame updateNodeState_ancestor)

theorem applyAt_frame_witness:
  "inBounds (tree_subtopics exTree2) [0, 1] \<and>
   \<not> prefix [0, 1] [0, 0::int] \<and> \<not> prefix [0, 0] [0, 1::int] \<and>
   nodeAt (tree_subtopics (applyAt exTree2 [0, 1] markLoading)) [0, 0]
     = Some (TreeNodeData ''A1'' ''a1'' (Some []) None) \<and>
   strict_prefix [0] [0, 1::int] \<and>
   map_option ownFields (nodeAt (tree_subtopics (applyAt exTree2 [0, 1] markLoading)) [0])
     = Some (''A'', ''a'', None, 2)"
proof -
  have ib: "inBounds (tree_subtopics exTree2) [0, 1]"
    by (simp add: exTree2_def subtopics_or_empty_def)
  have np: "\<not> prefix [0, 1] [0, 0::int] \<and> \<not> prefix [0, 0] [0, 1::int]" by simp
  have sp: "strict_prefix [0] [0, 1::int]" by (simp add: strict_prefix_def)
  note fr = applyAt_frame [OF ib, of markLoading]
  have v1: "nodeAt (tree_subtopics exTree2) [0, 0] = Some (TreeNodeData ''A1'' ''a1'' (Some []) None)"
    by (simp add: exTree2_def subtopics_or_empty_def)
  have v2: "map_option ownFields (nodeAt (tree_subtopics exTree2) [0]) = Some (''A'', ''a'', None, 2)"
    by (simp add: exTree2_def subtopics_or_empty_def ownFields_def)
  from fr np have a: "nodeAt (tree_subtopics (applyAt exTree2 [0, 1] markLoading)) [0, 0]
     = nodeAt (tree_subtopics exTree2) [0, 0]" by blast
  from fr sp have b: "map_option ownFields (nodeAt (tree_subtopics (applyAt exTree2 [0, 1] markLoading)) [0])
     = map_option ownFields (nodeAt (tree_subtopics exTree2) [0])" by blast
  show ?thesis using ib np sp a [unfolded v1] b [unfolded v2]
    by (intro conjI) (elim conjE, assumption)+
qed

text \<open>
  C6 (as amended). Called with the empty path, \<^verbatim>\<open>applyAt\<close> returns the tree unchanged
  for every updater: \<^verbatim>\<open>path[0]\<close> is \<^verbatim>\<open>undefined\<close> and the guard returns the nodes
  as they are. The updater is not applied to the root.
\<close>

theorem applyAt_empty_path: "applyAt t [] u = t"
  by (simp add: applyAt_def)

theorem applyAt_empty_path_counterexample:
  "rootDataNode (applyAt \<lparr>topic = ''X'', tree_description = ''d'', tree_subtopics = []\<rparr> [] markLoading)
     \<noteq> markLoading (rootDataNode \<lparr>topic = ''X'', tree_description = ''d'', tree_subtopics = []\<rparr>)"
  by (simp add: applyAt_def rootDataNode_def markLoading_def)

text \<open>
  C7. When an expansion request fails, \<^verbatim>\<open>handleExpand\<close> applies the
  \<^verbatim>\<open>clearLoadingOnly\<close> updater at the path. For an in-bounds path the resulting tree has
  the target node with its loading flag false and its title, description and children as
  before; every node below the target, every node off the path and the own fields of
  every ancestor are as before (for the empty path, the tree is unchanged).
\<close>

theorem failed_expansion_clears_flag_only:
  assumes "inBounds (tree_subtopics t) p"
  shows "\<exists>t'. handleExpand_end (Some t) p None = Some t' \<and>
         topic t' = topic t \<and> tree_description t' = tree_description t \<and>
         length (tree_subtopics t') = length (tree_subtopics t) \<and>
         (p = [] \<longrightarrow> t' = t) \<and>
         (p \<noteq> [] \<longrightarrow>
            (\<exists>n. nodeAt (tree_subtopics t) p = Some n \<and>
                 nodeAt (tree_subtopics t') p
                   = Some (TreeNodeData (title n) (description n) (subtopics n) (Some False)))) \<and>
         (\<forall>r. p \<noteq> [] \<and> r \<noteq> [] \<longrightarrow>
              nodeAt (tree_subtopics t') (p @ r) = nodeAt (tree_subtopics t) (p @ r)) \<and>
         (\<forall>q. \<not> prefix p q \<and> \<not> prefix q p \<longrightarrow>
              nodeAt (tree_subtopics t') q = nodeAt (tree_subtopics t) q) \<and>
         (\<forall>q. strict_prefix q p \<longrightarrow>
              map_option ownFields (nodeAt (tree_subtopics t') q)
                = map_option ownFields (nodeAt (tree_subtopics t) q))"
proof -
  let ?t' = "applyAt t p clearLoadingOnly"
  have h: "handleExpand_end (Some t) p None = Some ?t'"
    by (simp add: handleExpand_end_def)
  have e: "p = [] \<longrightarrow> ?t' = t" by (auto simp: applyAt_def)
  have tgt: "p \<noteq> [] \<longrightarrow>
            (\<exists>n. nodeAt (tree_subtopics t) p = Some n \<and>
                 nodeAt (tree_subtopics ?t') p
                   = Some (TreeNodeData (title n) (description n) (subtopics n) (Some False)))"
  proof
    assume ne: "p \<noteq> []"
    with assms obtain n where n: "nodeAt (tree_subtopics t) p = Some n"
      by (auto simp: inBounds_nodeAt)
    from updateNodeState_target[OF n, of clearLoadingOnly] n
    show "\<exists>n. nodeAt (tree_subtopics t) p = Some n \<and>
                 nodeAt (tree_subtopics ?t') p
                   = Some (TreeNodeData (title n) (description n) (subtopics n) (Some False))"
      by (simp add: applyAt_def clearLoadingOnly_def)
  qed
  have below: "\<forall>r. p \<noteq> [] \<and> r \<noteq> [] \<longrightarrow>
              nodeAt (tree_subtopics ?t') (p @ r) = nodeAt (tree_subtopics t) (p @ r)"
  proof (intro allI impI)
    fix r :: "int list"
    assume a: "p \<noteq> [] \<and> r \<noteq> []"
    with tgt obtain n where n: "nodeAt (tree_subtopics t) p = Some n"
      "nodeAt (tree_subtopics ?t') p = Some (TreeNodeData (title n) (description n) (subtopics n) (Some False))"
      by blast
    show "nodeAt (tree_subtopics ?t') (p @ r) = nodeAt (tree_subtopics t) (p @ r)"
      using a n by (simp add: nodeAt_append subtopics_or_empty_def)
  qed
  have rest: "topic ?t' = topic t \<and> tree_description ?t' = tree_description t \<and>
         length (tree_subtopics ?t') = length (tree_subtopics t) \<and>
         (\<forall>q. \<not> prefix p q \<and> \<not> prefix q p \<longrightarrow>
              nodeAt (tree_subtopics ?t') q = nodeAt (tree_subtopics t) q) \<and>
         (\<forall>q. strict_prefix q p \<longrightarrow>
              map_option ownFields (nodeAt (tree_subtopics ?t') q)
                = map_option ownFields (nodeAt (tree_subtopics t) q))"
    using assms by (simp add: applyAt_def updateNodeState_frame updateNodeState_ancestor)
  from h e tgt below rest show ?thesis by blast
qed

theorem failed_expansion_clears_flag_only_witness:
  "inBounds (tree_subtopics exTree3) [0] \<and>
   handleExpand_end (Some exTree3) [0] None =
     Some \<lparr>topic = ''X'', tree_description = ''d'',
       tree_subtopics =
         [TreeNodeData ''A'' ''a'' (Some []) (Some False),
          TreeNodeData ''B'' ''b'' (Some []) None]\<rparr> \<and>
   \<not> prefix [0] [1::int] \<and> \<not> prefix [1] [0::int] \<and>
   nodeAt (tree_subtopics (the (handleExpand_end (Some exTree3) [0] None))) [1]
     = nodeAt (tree_subtopics exTree3) [1]"
proof -
  have ib: "inBounds (tree_subtopics exTree3) [0]"
    by (simp add: exTree3_def)
  from failed_expansion_clears_flag_only [OF ib]
  obtain t' where t': "handleExpand_end (Some exTree3) [0] None = Some t'"
    and fr: "\<forall>q. \<not> prefix [0] q \<and> \<not> prefix q [0] \<longrightarrow>
              nodeAt (tree_subtopics t') q = nodeAt (tree_subtopics exTree3) q"
    by blast
  have np: "\<not> prefix [0] [1::int] \<and> \<not> prefix [1] [0::int]" by simp
  from fr np have "nodeAt (tree_subtopics t') [1] = nodeAt (tree_subtopics exTree3) [1]"
    by blast
  with t' have "nodeAt (tree_subtopics (the (handleExpand_end (Some exTree3) [0] None))) [1]
     = nodeAt (tree_subtopics exTree3) [1]"
    by simp
  moreover have "handleExpand_end (Some exTree3) [0] None =
     Some \<lparr>topic = ''X'', tree_description = ''d'',
       tree_subtopics =
         [TreeNodeData ''A'' ''a'' (Some []) (Some False),
          TreeNodeData ''B'' ''b'' (Some []) None]\<rparr>"
    by (simp add: handleExpand_end_def applyAt_def exTree3_def updateNodeState.simps(2) clearLoadingOnly_def)
  ultimately show ?thesis using ib by simp
qed

text \<open>
  C9 (as amended). For a node that is not loading, the \<^verbatim>\<open>clearLoadingOnly\<close> updater
  returns the node with its flag present and false and everything else as it was: the
  result equals the input in value exactly when the flag was already present and false
  (for an absent flag the result has one more field). Applying it twice is applying it once.
\<close>

theorem clearLoadingOnly_not_loading:
  assumes "isLoading node \<noteq> Some True"
  shows "(clearLoadingOnly node = node \<longleftrightarrow> isLoading node = Some False) \<and>
         clearLoadingOnly node = TreeNodeData (title node) (description node) (subtopics node) (Some False) \<and>
         clearLoadingOnly (clearLoadingOnly node) = clearLoadingOnly node"
  by (cases node) (auto simp: clearLoadingOnly_def)

theorem clearLoadingOnly_not_loading_witness:
  "isLoading (TreeNodeData ''A'' ''a'' (Some []) (Some False)) \<noteq> Some True \<and>
   clearLoadingOnly (TreeNodeData ''A'' ''a'' (Some []) (Some False))
     = TreeNodeData ''A'' ''a'' (Some []) (Some False)"
proof -
  have h: "isLoading (TreeNodeData ''A'' ''a'' (Some []) (Some False)) \<noteq> Some True" by simp
  from clearLoadingOnly_not_loading [OF h] show ?thesis by simp
qed

theorem clearLoadingOnly_absent_counterexample:
  "isLoading (TreeNodeData ''A'' ''a'' (Some []) None) = None \<and>
   clearLoadingOnly (TreeNodeData ''A'' ''a'' (Some []) None) \<noteq> TreeNodeData ''A'' ''a'' (Some []) None"
  by (simp add: clearLoadingOnly_def)

section \<open>The layout: lemmas\<close>

lemma layout_leaf:
  "isLeaf n \<Longrightarrow>
   layout n depth parent pp ip s =
     (length (heap s),
      pushed (length (heap s)) parent
        (s\<lparr>maxDepth := max (maxDepth s) depth,
           heap := heap s @ [(placeholder n depth parent pp ip)\<lparr>pn_y := yCounter s\<rparr>],
           yCounter := yCounter s + (NODE_HEIGHT + VERTICAL_SPACING)\<rparr>))"
  by (cases n) (auto simp: isLeaf_def pushed_def placeholder_def nodePath_def Let_def split: option.splits)

lemma layout_node:
  assumes "subtopics n = Some (c # cs)"
    and "layout_map (c # cs) 0 (depth + 1) (length (heap s)) (nodePath pp (title n)) ip
           (entered s n depth parent pp ip) = (kids, s')"
  shows "layout n depth parent pp ip s =
     (length (heap s),
      pushed (length (heap s)) parent
        (s'\<lparr>heap := (heap s')[length (heap s) :=
             (heap s' ! length (heap s))
               \<lparr>pn_children := kids,
                pn_y := pn_y (heap s' ! hd kids)
                        + (pn_y (heap s' ! last kids) - pn_y (heap s' ! hd kids)) / 2\<rparr>]\<rparr>))"
  using assms
  by (cases n; cases parent; cases "pp = []")
    (simp_all add: pushed_def placeholder_def nodePath_def entered_def Let_def
        del: layout_map.simps)

lemma layout_map_Cons:
  "layout_map (c # cs) i depth par pp ip s =
     (fst (layout c depth (Some par) pp (ip @ [int i]) s)
        # fst (layout_map cs (i + 1) depth par pp ip (snd (layout c depth (Some par) pp (ip @ [int i]) s))),
      snd (layout_map cs (i + 1) depth par pp ip (snd (layout c depth (Some par) pp (ip @ [int i]) s))))"
  by (simp split: prod.splits)

lemma layout_induct [case_names leaf node nil cons]:
  assumes "\<And>n depth parent pp ip s. isLeaf n \<Longrightarrow> P n depth parent pp ip s"
    and "\<And>n c cs depth parent pp ip s. subtopics n = Some (c # cs) \<Longrightarrow>
           Q (c # cs) 0 (depth + 1) (length (heap s)) (nodePath pp (title n)) ip
             (entered s n depth parent pp ip) \<Longrightarrow>
           P n depth parent pp ip s"
    and "\<And>i depth par pp ip s. Q [] i depth par pp ip s"
    and "\<And>c cs i depth par pp ip s.
           P c depth (Some par) pp (ip @ [int i]) s \<Longrightarrow>
           Q cs (i + 1) depth par pp ip (snd (layout c depth (Some par) pp (ip @ [int i]) s)) \<Longrightarrow>
           Q (c # cs) i depth par pp ip s"
  shows "P n depth parent pp ip s" and "Q cs i depth par pp ip s"
proof (induction n depth parent pp ip s and cs i depth par pp ip s rule: layout_layout_map.induct)
  case (1 ttl descr subs ld depth parent parentPath indexPath s)
  show ?case
  proof (cases "isLeaf (TreeNodeData ttl descr subs ld)")
    case True
    then show ?thesis by (rule assms(1))
  next
    case False
    then obtain c cs where subs: "subs = Some (c # cs)"
      by (cases subs; cases "the subs") (auto simp: isLeaf_def)
    have "Q (c # cs) 0 (depth + 1) (length (heap s)) (nodePath parentPath ttl) indexPath
             (entered s (TreeNodeData ttl descr subs ld) depth parent parentPath indexPath)"
      using 1[OF refl refl refl refl subs refl]
      by (simp add: nodePath_def entered_def placeholder_def)
    then show ?thesis using assms(2)[of "TreeNodeData ttl descr subs ld" c cs depth s parentPath indexPath parent] subs
      by simp
  qed
next
  case (2 index depth parent parentPath indexPath s)
  show ?case by (rule assms(3))
next
  case (3 subtopic rest index depth parent parentPath indexPath s)
  show ?case
    by (rule assms(4)) (rule 3(1), rule 3(2)[OF prod.collapse])
qed


lemma leaf_facts:
  assumes "isLeaf n"
  shows "nodeCount n = 1" "leafCount n = 1" "postAddrs n a = [a]" "postorder n ip = [(ip, n)]"
  using assms by (cases n; auto simp: isLeaf_def)+

lemma node_facts:
  assumes "subtopics n = Some (c # cs)"
  shows "nodeCount n = 1 + nodeCounts (c # cs)" "leafCount n = leafCounts (c # cs)"
    "postAddrs n a = postAddrss (c # cs) (a + 1) @ [a]"
    "postorder n ip = postorders (c # cs) 0 ip @ [(ip, n)]"
  using assms by (cases n; simp)+

lemma nth_of_take: "take k ys = xs \<Longrightarrow> i < length xs \<Longrightarrow> ys ! i = xs ! i"
  by (metis nth_take length_take min_less_iff_conj)

lemma take_of_take: "take k ys = xs \<Longrightarrow> take j zs = ys \<Longrightarrow> k \<le> length ys \<Longrightarrow> take k zs = xs"
  by (metis min.absorb2 take_take length_take min.cobounded2 min_def)

lemma layout_struct:
  "fst (layout n depth parent pp ip s) = length (heap s) \<and>
   length (heap (snd (layout n depth parent pp ip s))) = length (heap s) + nodeCount n \<and>
   take (length (heap s)) (heap (snd (layout n depth parent pp ip s))) = heap s \<and>
   yCounter (snd (layout n depth parent pp ip s))
     = yCounter s + (NODE_HEIGHT + VERTICAL_SPACING) * real (leafCount n) \<and>
   allNodes (snd (layout n depth parent pp ip s)) = allNodes s @ postAddrs n (length (heap s))"
  "fst (layout_map cs i depth par pp ip s) = childAddrs cs (length (heap s)) \<and>
   length (heap (snd (layout_map cs i depth par pp ip s))) = length (heap s) + nodeCounts cs \<and>
   take (length (heap s)) (heap (snd (layout_map cs i depth par pp ip s))) = heap s \<and>
   yCounter (snd (layout_map cs i depth par pp ip s))
     = yCounter s + (NODE_HEIGHT + VERTICAL_SPACING) * real (leafCounts cs) \<and>
   allNodes (snd (layout_map cs i depth par pp ip s)) = allNodes s @ postAddrss cs (length (heap s))"
proof (induction n depth parent pp ip s and cs i depth par pp ip s rule: layout_induct)
  case (leaf n depth parent pp ip s)
  then show ?case
    by (simp add: layout_leaf leaf_facts pushed_def)
next
  case (node n c cs depth parent pp ip s)
  obtain kids s' where r: "layout_map (c # cs) 0 (depth + 1) (length (heap s)) (nodePath pp (title n)) ip
           (entered s n depth parent pp ip) = (kids, s')"
    by (cases "layout_map (c # cs) 0 (depth + 1) (length (heap s)) (nodePath pp (title n)) ip
           (entered s n depth parent pp ip)")
  have e: "heap (entered s n depth parent pp ip) = heap s @ [placeholder n depth parent pp ip]"
    "yCounter (entered s n depth parent pp ip) = yCounter s"
    "allNodes (entered s n depth parent pp ip) = allNodes s"
    by (simp_all add: entered_def)
  from node.IH have ih: "length (heap s') = Suc (length (heap s)) + nodeCounts (c # cs)"
    "take (Suc (length (heap s))) (heap s') = heap s @ [placeholder n depth parent pp ip]"
    "yCounter s' = yCounter s + (NODE_HEIGHT + VERTICAL_SPACING) * real (leafCounts (c # cs))"
    "allNodes s' = allNodes s @ postAddrss (c # cs) (Suc (length (heap s)))"
    unfolding r e by simp_all
  have tk: "take (length (heap s)) (heap s') = heap s"
    using take_of_take[of "length (heap s)" "heap s @ [placeholder n depth parent pp ip]" "heap s"
        "Suc (length (heap s))" "heap s'"] ih(2) by simp
  show ?case
    unfolding layout_node[OF node.hyps r]
    using ih tk by (simp add: pushed_def node_facts[OF node.hyps] del: nodeCounts.simps leafCounts.simps postAddrss.simps)
next
  case (nil i depth par pp ip s)
  show ?case by simp
next
  case (cons c cs i depth par pp ip s)
  let ?r1 = "layout c depth (Some par) pp (ip @ [int i]) s"
  from cons.IH(1) have a: "fst ?r1 = length (heap s)"
    "length (heap (snd ?r1)) = length (heap s) + nodeCount c"
    "take (length (heap s)) (heap (snd ?r1)) = heap s"
    "yCounter (snd ?r1) = yCounter s + (NODE_HEIGHT + VERTICAL_SPACING) * real (leafCount c)"
    "allNodes (snd ?r1) = allNodes s @ postAddrs c (length (heap s))"
    by simp_all
  let ?r2 = "layout_map cs (i + 1) depth par pp ip (snd ?r1)"
  from cons.IH(2) have b: "fst ?r2 = childAddrs cs (length (heap (snd ?r1)))"
    "length (heap (snd ?r2)) = length (heap (snd ?r1)) + nodeCounts cs"
    "take (length (heap (snd ?r1))) (heap (snd ?r2)) = heap (snd ?r1)"
    "yCounter (snd ?r2) = yCounter (snd ?r1) + (NODE_HEIGHT + VERTICAL_SPACING) * real (leafCounts cs)"
    "allNodes (snd ?r2) = allNodes (snd ?r1) @ postAddrss cs (length (heap (snd ?r1)))"
    by simp_all
  have tk: "take (length (heap s)) (heap (snd ?r2)) = heap s"
    using take_of_take[OF a(3) b(3)] a(2) by simp
  show ?case
    unfolding layout_map_Cons
    using a b tk by (simp add: algebra_simps)
qed

lemma nodeCount_pos: "0 < nodeCount n"
  by (cases n) simp

lemma postAddrs_set:
  "set (postAddrs n a) = {a ..< a + nodeCount n} \<and> distinct (postAddrs n a)"
  "set (postAddrss cs a) = {a ..< a + nodeCounts cs} \<and> distinct (postAddrss cs a)"
proof (induction n a and cs a rule: postAddrs_postAddrss.induct)
  case (1 ttl descr subs ld a)
  then show ?case by (cases subs) auto
next
  case (2 a)
  then show ?case by simp
next
  case (3 c cs a)
  then show ?case by auto
qed

lemma postAddrs_last: "last (postAddrs n a) = a" "postAddrs n a \<noteq> []"
  by (cases n; simp)+

lemma postAddrs_length:
  "length (postAddrs n a) = nodeCount n"
  "length (postAddrss cs a) = nodeCounts cs"
  by (induction n a and cs a rule: postAddrs_postAddrss.induct) (auto split: option.splits)

lemma childAddrs_facts:
  "length (childAddrs cs a) = length cs"
  "set (childAddrs cs a) \<subseteq> set (postAddrss cs a)"
  "cs \<noteq> [] \<Longrightarrow> hd (childAddrs cs a) = a"
proof -
  show "length (childAddrs cs a) = length cs"
    by (induction cs arbitrary: a) auto
  show "set (childAddrs cs a) \<subseteq> set (postAddrss cs a)"
  proof (induction cs arbitrary: a)
    case Nil then show ?case by simp
  next
    case (Cons c cs)
    have "a \<in> set (postAddrs c a)" using postAddrs_last[of c a] by (metis last_in_set)
    then show ?case using Cons by auto
  qed
  show "cs \<noteq> [] \<Longrightarrow> hd (childAddrs cs a) = a"
    by (cases cs) auto
qed

lemma nodeData_placeholder [simp]: "nodeData (placeholder n depth parent pp ip) = n"
  by (cases n) (simp add: nodeData_def placeholder_def)

lemma nodeData_upd [simp]:
  "nodeData (p\<lparr>pn_y := v\<rparr>) = nodeData p"
  "nodeData (p\<lparr>pn_children := ks\<rparr>) = nodeData p"
  by (simp_all add: nodeData_def)

lemma map_nth_cong: "\<forall>b \<in> set xs. h' ! b = h ! b \<Longrightarrow> map ((!) h') xs = map ((!) h) xs"
  by simp

text \<open>Cells of a finished subtree are not touched afterwards.\<close>

lemma layout_node_cells:
  assumes "subtopics n = Some (c # cs)"
    and "layout_map (c # cs) 0 (depth + 1) (length (heap s)) (nodePath pp (title n)) ip
           (entered s n depth parent pp ip) = (kids, s')"
  shows "kids = childAddrs (c # cs) (Suc (length (heap s)))"
    and "length (heap s') = Suc (length (heap s)) + nodeCounts (c # cs)"
    and "heap s' ! length (heap s) = placeholder n depth parent pp ip"
    and "yCounter s' = yCounter s + (NODE_HEIGHT + VERTICAL_SPACING) * real (leafCounts (c # cs))"
    and "\<forall>b. b \<noteq> length (heap s) \<longrightarrow> heap (snd (layout n depth parent pp ip s)) ! b = heap s' ! b"
    and "heap (snd (layout n depth parent pp ip s)) ! length (heap s) =
           (placeholder n depth parent pp ip)
             \<lparr>pn_children := kids,
              pn_y := pn_y (heap s' ! hd kids) + (pn_y (heap s' ! last kids) - pn_y (heap s' ! hd kids)) / 2\<rparr>"
proof -
  have e: "heap (entered s n depth parent pp ip) = heap s @ [placeholder n depth parent pp ip]"
    "yCounter (entered s n depth parent pp ip) = yCounter s"
    by (simp_all add: entered_def)
  note st = layout_struct(2)[of "c # cs" 0 "depth + 1" "length (heap s)" "nodePath pp (title n)" ip
      "entered s n depth parent pp ip", unfolded assms(2) e]
  from st show k: "kids = childAddrs (c # cs) (Suc (length (heap s)))" by simp
  from st show len: "length (heap s') = Suc (length (heap s)) + nodeCounts (c # cs)" by simp
  from st have tk: "take (Suc (length (heap s))) (heap s') = heap s @ [placeholder n depth parent pp ip]"
    by simp
  show ph: "heap s' ! length (heap s) = placeholder n depth parent pp ip"
    using nth_of_take[OF tk, of "length (heap s)"] by simp
  from st show "yCounter s' = yCounter s + (NODE_HEIGHT + VERTICAL_SPACING) * real (leafCounts (c # cs))"
    by simp
  show "\<forall>b. b \<noteq> length (heap s) \<longrightarrow> heap (snd (layout n depth parent pp ip s)) ! b = heap s' ! b"
    unfolding layout_node[OF assms] by (simp add: pushed_def)
  show "heap (snd (layout n depth parent pp ip s)) ! length (heap s) =
           (placeholder n depth parent pp ip)
             \<lparr>pn_children := kids,
              pn_y := pn_y (heap s' ! hd kids) + (pn_y (heap s' ! last kids) - pn_y (heap s' ! hd kids)) / 2\<rparr>"
    unfolding layout_node[OF assms] using len ph by (simp add: pushed_def)
qed

lemma layout_map_cells:
  "snd (layout_map (c # cs) i depth par pp ip s)
     = snd (layout_map cs (i + 1) depth par pp ip (snd (layout c depth (Some par) pp (ip @ [int i]) s)))"
  "length (heap (snd (layout c depth (Some par) pp (ip @ [int i]) s))) = length (heap s) + nodeCount c"
  "\<forall>b < length (heap s) + nodeCount c.
     heap (snd (layout_map cs (i + 1) depth par pp ip (snd (layout c depth (Some par) pp (ip @ [int i]) s)))) ! b
       = heap (snd (layout c depth (Some par) pp (ip @ [int i]) s)) ! b"
  "yCounter (snd (layout c depth (Some par) pp (ip @ [int i]) s))
     = yCounter s + (NODE_HEIGHT + VERTICAL_SPACING) * real (leafCount c)"
proof -
  let ?r1 = "layout c depth (Some par) pp (ip @ [int i]) s"
  let ?r2 = "layout_map cs (i + 1) depth par pp ip (snd ?r1)"
  show "snd (layout_map (c # cs) i depth par pp ip s) = snd ?r2"
    unfolding layout_map_Cons by simp
  show len: "length (heap (snd ?r1)) = length (heap s) + nodeCount c"
    using layout_struct(1) by simp
  have "take (length (heap (snd ?r1))) (heap (snd ?r2)) = heap (snd ?r1)"
    using layout_struct(2) by simp
  then show "\<forall>b < length (heap s) + nodeCount c. heap (snd ?r2) ! b = heap (snd ?r1) ! b"
    using nth_of_take len by metis
  show "yCounter (snd ?r1) = yCounter s + (NODE_HEIGHT + VERTICAL_SPACING) * real (leafCount c)"
    using layout_struct(1) by simp
qed

lemma layout_postorder:
  "map (\<lambda>b. (pn_indexPath (heap (snd (layout n depth parent pp ip s)) ! b),
              nodeData (heap (snd (layout n depth parent pp ip s)) ! b)))
       (postAddrs n (length (heap s))) = postorder n ip"
  "map (\<lambda>b. (pn_indexPath (heap (snd (layout_map cs i depth par pp ip s)) ! b),
              nodeData (heap (snd (layout_map cs i depth par pp ip s)) ! b)))
       (postAddrss cs (length (heap s))) = postorders cs i ip \<and>
   map (\<lambda>b. nodeData (heap (snd (layout_map cs i depth par pp ip s)) ! b))
       (childAddrs cs (length (heap s))) = cs"
proof (induction n depth parent pp ip s and cs i depth par pp ip s rule: layout_induct)
  case (leaf n depth parent pp ip s)
  then show ?case
    by (simp add: layout_leaf leaf_facts pushed_def) (simp add: placeholder_def)
next
  case (node n c cs depth parent pp ip s)
  let ?a = "length (heap s)"
  obtain kids s' where r: "layout_map (c # cs) 0 (depth + 1) ?a (nodePath pp (title n)) ip
           (entered s n depth parent pp ip) = (kids, s')"
    by (cases "layout_map (c # cs) 0 (depth + 1) ?a (nodePath pp (title n)) ip
           (entered s n depth parent pp ip)")
  note cells = layout_node_cells[OF node.hyps r]
  let ?H = "heap (snd (layout n depth parent pp ip s))"
  have le: "length (heap (entered s n depth parent pp ip)) = Suc ?a"
    by (simp add: entered_def)
  from node.IH have ih: "map (\<lambda>b. (pn_indexPath (heap s' ! b), nodeData (heap s' ! b)))
       (postAddrss (c # cs) (Suc ?a)) = postorders (c # cs) 0 ip"
    unfolding r le by simp
  have "\<forall>b \<in> set (postAddrss (c # cs) (Suc ?a)). ?H ! b = heap s' ! b"
    using cells(5) postAddrs_set(2)[of "c # cs" "Suc ?a"] by auto
  then have "map (\<lambda>b. (pn_indexPath (?H ! b), nodeData (?H ! b))) (postAddrss (c # cs) (Suc ?a))
     = map (\<lambda>b. (pn_indexPath (heap s' ! b), nodeData (heap s' ! b))) (postAddrss (c # cs) (Suc ?a))"
    by (intro map_cong) auto
  moreover have "nodeData (?H ! ?a) = n"
    unfolding cells(6) by simp
  moreover have "pn_indexPath (?H ! ?a) = ip"
    unfolding cells(6) by (simp add: placeholder_def)
  ultimately show ?case
    using ih by (simp add: node_facts[OF node.hyps] del: postAddrss.simps postorders.simps)
next
  case (nil i depth par pp ip s)
  show ?case by simp
next
  case (cons c cs i depth par pp ip s)
  let ?a = "length (heap s)"
  let ?r1 = "layout c depth (Some par) pp (ip @ [int i]) s"
  let ?r2 = "layout_map cs (i + 1) depth par pp ip (snd ?r1)"
  note mc = layout_map_cells(1)[of c cs i depth par pp ip s]
    layout_map_cells(2)[of c depth par pp ip i s]
    layout_map_cells(3)[of s c cs i depth par pp ip]
    layout_map_cells(4)[of c depth par pp ip i s]
  let ?H1 = "heap (snd ?r1)" and ?H2 = "heap (snd ?r2)"
  have agree: "\<forall>b \<in> set (postAddrs c ?a). ?H2 ! b = ?H1 ! b"
    using mc(2,3) postAddrs_set(1)[of c ?a] by auto
  have p1: "map (\<lambda>b. (pn_indexPath (?H2 ! b), nodeData (?H2 ! b))) (postAddrs c ?a)
      = postorder c (ip @ [int i])"
    using cons.IH(1) agree by (simp cong: map_cong)
  have ain: "?a \<in> set (postAddrs c ?a)"
    using postAddrs_set(1)[of c ?a] nodeCount_pos[of c] by simp
  have "(pn_indexPath (?H1 ! ?a), nodeData (?H1 ! ?a)) = last (postorder c (ip @ [int i]))"
    using cons.IH(1)[symmetric] postAddrs_last[of c ?a] by (simp add: last_map)
  then have "nodeData (?H1 ! ?a) = c" by (cases c) simp
  with agree ain have hd: "nodeData (?H2 ! ?a) = c" by simp
  from cons.IH(2) mc(2) have p2:
    "map (\<lambda>b. (pn_indexPath (?H2 ! b), nodeData (?H2 ! b))) (postAddrss cs (?a + nodeCount c))
       = postorders cs (i + 1) ip"
    "map (\<lambda>b. nodeData (?H2 ! b)) (childAddrs cs (?a + nodeCount c)) = cs"
    by simp_all
  show ?case
    unfolding mc(1) using p1 p2 hd by simp
qed

lemma map_upt_split:
  "map f [0..<m + n] = map f [0..<m] @ map (\<lambda>j. f (m + j)) [0..<n]"
  by (induction n) simp_all

lemma leafYs_cong:
  "\<forall>b \<in> set xs. h' ! b = h ! b \<Longrightarrow>
   map (\<lambda>b. pn_y (h' ! b)) (filter (\<lambda>b. isLeaf (nodeData (h' ! b))) xs)
     = map (\<lambda>b. pn_y (h ! b)) (filter (\<lambda>b. isLeaf (nodeData (h ! b))) xs)"
  by (induction xs) auto

lemma layout_leaf_ys:
  "map (\<lambda>b. pn_y (heap (snd (layout n depth parent pp ip s)) ! b))
       (filter (\<lambda>b. isLeaf (nodeData (heap (snd (layout n depth parent pp ip s)) ! b)))
          (postAddrs n (length (heap s))))
     = map (\<lambda>j. yCounter s + (NODE_HEIGHT + VERTICAL_SPACING) * real j) [0..<leafCount n]"
  "map (\<lambda>b. pn_y (heap (snd (layout_map cs i depth par pp ip s)) ! b))
       (filter (\<lambda>b. isLeaf (nodeData (heap (snd (layout_map cs i depth par pp ip s)) ! b)))
          (postAddrss cs (length (heap s))))
     = map (\<lambda>j. yCounter s + (NODE_HEIGHT + VERTICAL_SPACING) * real j) [0..<leafCounts cs]"
proof (induction n depth parent pp ip s and cs i depth par pp ip s rule: layout_induct)
  case (leaf n depth parent pp ip s)
  then show ?case
    by (simp add: layout_leaf leaf_facts pushed_def)
next
  case (node n c cs depth parent pp ip s)
  let ?a = "length (heap s)"
  obtain kids s' where r: "layout_map (c # cs) 0 (depth + 1) ?a (nodePath pp (title n)) ip
           (entered s n depth parent pp ip) = (kids, s')"
    by (cases "layout_map (c # cs) 0 (depth + 1) ?a (nodePath pp (title n)) ip
           (entered s n depth parent pp ip)")
  note cells = layout_node_cells[OF node.hyps r]
  let ?H = "heap (snd (layout n depth parent pp ip s))"
  let ?L = "postAddrss (c # cs) (Suc ?a)"
  have le: "length (heap (entered s n depth parent pp ip)) = Suc ?a"
    "yCounter (entered s n depth parent pp ip) = yCounter s"
    by (simp_all add: entered_def)
  from node.IH have ih: "map (\<lambda>b. pn_y (heap s' ! b)) (filter (\<lambda>b. isLeaf (nodeData (heap s' ! b))) ?L)
     = map (\<lambda>j. yCounter s + (NODE_HEIGHT + VERTICAL_SPACING) * real j) [0..<leafCounts (c # cs)]"
    unfolding r le by simp
  have "\<forall>b \<in> set ?L. ?H ! b = heap s' ! b"
    using cells(5) postAddrs_set(2)[of "c # cs" "Suc ?a"] by auto
  note tr = leafYs_cong[OF this]
  have nl: "\<not> isLeaf (nodeData (?H ! ?a))"
    unfolding cells(6) using node.hyps by (simp add: isLeaf_def)
  show ?case
    using ih tr nl by (simp add: node_facts[OF node.hyps] del: postAddrss.simps leafCounts.simps)
next
  case (nil i depth par pp ip s)
  show ?case by simp
next
  case (cons c cs i depth par pp ip s)
  let ?a = "length (heap s)"
  let ?r1 = "layout c depth (Some par) pp (ip @ [int i]) s"
  let ?r2 = "layout_map cs (i + 1) depth par pp ip (snd ?r1)"
  note mc = layout_map_cells
  let ?H1 = "heap (snd ?r1)" and ?H2 = "heap (snd ?r2)"
  have agree: "\<forall>b \<in> set (postAddrs c ?a). ?H2 ! b = ?H1 ! b"
    using mc(3)[of s c cs i depth par pp ip] postAddrs_set(1)[of c ?a] by auto
  note p1 = cons.IH(1)[folded leafYs_cong[OF agree]]
  note p2 = cons.IH(2)[unfolded mc(2) mc(4)]
  show ?case
    unfolding mc(1) using p1 p2
    by (simp add: map_upt_split algebra_simps)
qed

lemma takeWhile_neq_notin:
  "b \<notin> set xs \<Longrightarrow> takeWhile (\<lambda>x. x \<noteq> b) (xs @ ys) = xs @ takeWhile (\<lambda>x. x \<noteq> b) ys"
  by (induction xs) auto

lemma takeWhile_neq_in:
  "b \<in> set xs \<Longrightarrow> takeWhile (\<lambda>x. x \<noteq> b) (xs @ ys) = takeWhile (\<lambda>x. x \<noteq> b) xs"
  by (induction xs) auto

lemma set_takeWhile_subset: "set (takeWhile P xs) \<subseteq> set xs"
  by (auto dest: set_takeWhileD)

lemma centredOnChildren_cong:
  assumes "h' ! b = h ! b" and "\<forall>c \<in> set (pn_children (h ! b)). h' ! c = h ! c"
  shows "centredOnChildren h' b = centredOnChildren h b"
proof (cases "pn_children (h ! b) = []")
  case True
  then show ?thesis using assms by (simp add: centredOnChildren_def)
next
  case False
  then have "hd (pn_children (h ! b)) \<in> set (pn_children (h ! b))"
    "last (pn_children (h ! b)) \<in> set (pn_children (h ! b))" by simp_all
  with assms have hl: "h' ! hd (pn_children (h ! b)) = h ! hd (pn_children (h ! b))"
    "h' ! last (pn_children (h ! b)) = h ! last (pn_children (h ! b))" by blast+
  have m: "map (\<lambda>c. nodeData (h' ! c)) (pn_children (h ! b))
     = map (\<lambda>c. nodeData (h ! c)) (pn_children (h ! b))"
    using assms(2) by (simp cong: map_cong)
  show ?thesis by (simp only: centredOnChildren_def assms(1) hl m)
qed

lemma layout_centred:
  "\<forall>b \<in> set (postAddrs n (length (heap s))).
     set (pn_children (heap (snd (layout n depth parent pp ip s)) ! b))
       \<subseteq> set (takeWhile (\<lambda>x. x \<noteq> b) (postAddrs n (length (heap s)))) \<and>
     centredOnChildren (heap (snd (layout n depth parent pp ip s))) b"
  "\<forall>b \<in> set (postAddrss cs (length (heap s))).
     set (pn_children (heap (snd (layout_map cs i depth par pp ip s)) ! b))
       \<subseteq> set (takeWhile (\<lambda>x. x \<noteq> b) (postAddrss cs (length (heap s)))) \<and>
     centredOnChildren (heap (snd (layout_map cs i depth par pp ip s))) b"
proof (induction n depth parent pp ip s and cs i depth par pp ip s rule: layout_induct)
  case (leaf n depth parent pp ip s)
  then show ?case
    by (simp add: layout_leaf leaf_facts pushed_def centredOnChildren_def) (simp add: placeholder_def)
next
  case (node n c cs depth parent pp ip s)
  let ?a = "length (heap s)"
  obtain kids s' where r: "layout_map (c # cs) 0 (depth + 1) ?a (nodePath pp (title n)) ip
           (entered s n depth parent pp ip) = (kids, s')"
    by (cases "layout_map (c # cs) 0 (depth + 1) ?a (nodePath pp (title n)) ip
           (entered s n depth parent pp ip)")
  note cells = layout_node_cells[OF node.hyps r]
  let ?H = "heap (snd (layout n depth parent pp ip s))"
  let ?L = "postAddrss (c # cs) (Suc ?a)"
  have le: "length (heap (entered s n depth parent pp ip)) = Suc ?a"
    by (simp add: entered_def)
  have Lset: "set ?L = {Suc ?a ..< Suc ?a + nodeCounts (c # cs)}"
    using postAddrs_set(2)[of "c # cs" "Suc ?a"] by simp
  then have anotin: "?a \<notin> set ?L" by simp
  have pa: "postAddrs n ?a = ?L @ [?a]"
    by (simp add: node_facts[OF node.hyps] del: postAddrss.simps)
  from node.IH have ih: "\<forall>b \<in> set ?L.
     set (pn_children (heap s' ! b)) \<subseteq> set (takeWhile (\<lambda>x. x \<noteq> b) ?L) \<and>
     centredOnChildren (heap s') b"
    unfolding r le by simp
  have kids_sub: "set kids \<subseteq> set ?L"
    unfolding cells(1) by (rule childAddrs_facts(2))
  have kids_ne: "kids \<noteq> []" unfolding cells(1) by simp
  have agreeL: "\<forall>b \<in> set ?L. ?H ! b = heap s' ! b"
    using cells(5) postAddrs_set(2)[of "c # cs" "Suc ?a"] by auto
  have kd: "map (\<lambda>c. nodeData (heap s' ! c)) kids = c # cs"
    using layout_postorder(2)[of "c # cs" 0 "depth + 1" ?a "nodePath pp (title n)" ip
        "entered s n depth parent pp ip"]
    unfolding r le cells(1) by simp
  show ?case
  proof
    fix b assume b: "b \<in> set (postAddrs n ?a)"
    show "set (pn_children (?H ! b)) \<subseteq> set (takeWhile (\<lambda>x. x \<noteq> b) (postAddrs n ?a)) \<and>
          centredOnChildren ?H b"
    proof (cases "b = ?a")
      case True
      have tw: "takeWhile (\<lambda>x. x \<noteq> ?a) (?L @ [?a]) = ?L"
        using anotin by (simp add: takeWhile_neq_notin del: postAddrss.simps)
      have ch: "pn_children (?H ! ?a) = kids" unfolding cells(6) by simp
      have nd: "nodeData (?H ! ?a) = n" unfolding cells(6) by simp
      have hk: "?H ! hd kids = heap s' ! hd kids" "?H ! last kids = heap s' ! last kids"
        using agreeL kids_sub kids_ne by (auto simp: subset_iff)
      have km: "map (\<lambda>c. nodeData (?H ! c)) kids = c # cs"
        using kd agreeL kids_sub by (simp add: subset_iff cong: map_cong)
      have y: "pn_y (?H ! ?a) = pn_y (?H ! hd kids) + (pn_y (?H ! last kids) - pn_y (?H ! hd kids)) / 2"
        unfolding hk unfolding cells(6) by simp
      have "centredOnChildren ?H ?a"
        using ch nd km y kids_ne node.hyps
        by (simp add: centredOnChildren_def isLeaf_def subtopics_or_empty_def)
      then show ?thesis using True tw ch kids_sub pa by (simp del: postAddrss.simps)
    next
      case False
      with b pa have bL: "b \<in> set ?L" by (simp del: postAddrss.simps)
      with ih have i1: "set (pn_children (heap s' ! b)) \<subseteq> set (takeWhile (\<lambda>x. x \<noteq> b) ?L)"
        and i2: "centredOnChildren (heap s') b" by blast+
      have eqb: "?H ! b = heap s' ! b" using agreeL bL by blast
      have "set (takeWhile (\<lambda>x. x \<noteq> b) ?L) \<subseteq> set ?L" by (rule set_takeWhile_subset)
      with i1 agreeL have "\<forall>c \<in> set (pn_children (heap s' ! b)). ?H ! c = heap s' ! c" by blast
      from centredOnChildren_cong[OF eqb this] i2 have "centredOnChildren ?H b" by simp
      moreover have "takeWhile (\<lambda>x. x \<noteq> b) (?L @ [?a]) = takeWhile (\<lambda>x. x \<noteq> b) ?L"
        using bL by (simp add: takeWhile_neq_in del: postAddrss.simps)
      ultimately show ?thesis using i1 eqb pa by (simp del: postAddrss.simps)
    qed
  qed
next
  case (nil i depth par pp ip s)
  show ?case by simp
next
  case (cons c cs i depth par pp ip s)
  let ?a = "length (heap s)"
  let ?r1 = "layout c depth (Some par) pp (ip @ [int i]) s"
  let ?r2 = "layout_map cs (i + 1) depth par pp ip (snd ?r1)"
  note mc = layout_map_cells
  let ?H1 = "heap (snd ?r1)" and ?H2 = "heap (snd ?r2)"
  let ?L1 = "postAddrs c ?a" and ?L2 = "postAddrss cs (?a + nodeCount c)"
  have L1set: "set ?L1 = {?a ..< ?a + nodeCount c}" using postAddrs_set(1)[of c ?a] by simp
  have L2set: "set ?L2 = {?a + nodeCount c ..< ?a + nodeCount c + nodeCounts cs}"
    using postAddrs_set(2)[of cs "?a + nodeCount c"] by simp
  have agree: "\<forall>b \<in> set ?L1. ?H2 ! b = ?H1 ! b"
    using mc(3)[of s c cs i depth par pp ip] L1set by auto
  note ih2 = cons.IH(2)[unfolded mc(2)]
  show ?case
    unfolding mc(1)
  proof
    fix b assume b: "b \<in> set (postAddrss (c # cs) ?a)"
    show "set (pn_children (?H2 ! b)) \<subseteq> set (takeWhile (\<lambda>x. x \<noteq> b) (postAddrss (c # cs) ?a)) \<and>
          centredOnChildren ?H2 b"
    proof (cases "b \<in> set ?L1")
      case True
      with cons.IH(1) have i1: "set (pn_children (?H1 ! b)) \<subseteq> set (takeWhile (\<lambda>x. x \<noteq> b) ?L1)"
        and i2: "centredOnChildren ?H1 b" by blast+
      have eqb: "?H2 ! b = ?H1 ! b" using agree True by blast
      have "set (takeWhile (\<lambda>x. x \<noteq> b) ?L1) \<subseteq> set ?L1" by (rule set_takeWhile_subset)
      with i1 agree have "\<forall>c \<in> set (pn_children (?H1 ! b)). ?H2 ! c = ?H1 ! c" by blast
      from centredOnChildren_cong[OF eqb this] i2 have "centredOnChildren ?H2 b" by simp
      moreover have "takeWhile (\<lambda>x. x \<noteq> b) (?L1 @ ?L2) = takeWhile (\<lambda>x. x \<noteq> b) ?L1"
        using True by (simp add: takeWhile_neq_in)
      ultimately show ?thesis using i1 eqb by simp
    next
      case False
      with b have bL: "b \<in> set ?L2" by simp
      have "takeWhile (\<lambda>x. x \<noteq> b) (?L1 @ ?L2) = ?L1 @ takeWhile (\<lambda>x. x \<noteq> b) ?L2"
        using False by (simp add: takeWhile_neq_notin)
      then show ?thesis using ih2 bL by auto
    qed
  qed
qed

section \<open>Rounding: lemmas\<close>

declare bitLength.simps [simp del]

lemma bitLength_bounds:
  "0 < n \<Longrightarrow> 2 ^ (bitLength n - 1) \<le> n \<and> n < 2 ^ bitLength n"
proof (induction n rule: bitLength.induct)
  case (1 n)
  show ?case
  proof (cases "n div 2 = 0")
    case True
    with 1(2) have "n = 1" by (simp add: div_eq_0_iff) 
    then show ?thesis by (simp add: bitLength.simps[of "Suc 0"] bitLength.simps[of 0])
  next
    case False
    then have pos: "0 < n div 2" by simp
    from 1(1)[OF _ pos] 1(2) have ih: "2 ^ (bitLength (n div 2) - 1) \<le> n div 2" "n div 2 < 2 ^ bitLength (n div 2)"
      by simp_all
    have bl: "bitLength n = Suc (bitLength (n div 2))" using 1(2) by (simp add: bitLength.simps[of n])
    have bp: "0 < bitLength (n div 2)" using pos by (simp add: bitLength.simps[of "n div 2"])
    then obtain m where m: "bitLength (n div 2) = Suc m" by (cases "bitLength (n div 2)") auto
    from ih m have "2 * 2 ^ m \<le> 2 * (n div 2)" by simp
    then have lo: "2 ^ Suc m \<le> n" by simp
    from ih(2) have "n div 2 + 1 \<le> 2 ^ Suc m" using m by simp
    then have "2 * (n div 2) + 2 \<le> 2 * 2 ^ Suc m" by simp
    then have hi: "n < 2 ^ Suc (Suc m)" by simp
    show ?thesis using lo hi by (simp add: bl m)
  qed
qed

lemma exponent_bounds:
  assumes "x \<noteq> 0"
  shows "2 powi exponent x \<le> \<bar>x\<bar>" and "\<bar>x\<bar> < 2 powi (exponent x + 1)"
proof -
  let ?a = "\<bar>x\<bar>"
  have apos: "0 < ?a" using assms by simp
  have "2 powi exponent x \<le> ?a \<and> ?a < 2 powi (exponent x + 1)"
  proof (cases "1 \<le> ?a")
    case True
    let ?n = "nat \<lfloor>?a\<rfloor>"
    have n1: "0 < ?n" using True by simp
    have e: "exponent x = int (bitLength ?n) - 1" using True by (simp add: exponent_def)
    from bitLength_bounds[OF n1] have b: "2 ^ (bitLength ?n - 1) \<le> ?n" "?n < 2 ^ bitLength ?n" by simp_all
    have bp: "0 < bitLength ?n" using n1 by (simp add: bitLength.simps[of ?n])
    have nle: "real ?n \<le> ?a" using True by simp
    have alt: "?a < real ?n + 1" using True by simp
    have "real (2 ^ (bitLength ?n - 1)) \<le> real ?n" using b(1) by (rule of_nat_mono)
    from order_trans[OF this nle] have lo: "(2::real) ^ (bitLength ?n - 1) \<le> ?a"
      by (simp only: of_nat_power of_nat_numeral)
    have "real ?n + 1 \<le> real (2 ^ bitLength ?n)" using b(2) by (metis Suc_leI of_nat_Suc of_nat_mono add.commute plus_1_eq_Suc)
    from less_le_trans[OF alt this] have hi: "?a < (2::real) ^ bitLength ?n"
      by (simp only: of_nat_power of_nat_numeral)
    have p1: "(2::real) powi (int (bitLength ?n) - 1) = 2 ^ (bitLength ?n - 1)"
      using bp by (simp add: power_int_def nat_diff_distrib')
    have p2: "(2::real) powi (int (bitLength ?n) - 1 + 1) = 2 ^ bitLength ?n"
      by (simp add: power_int_def)
    show ?thesis unfolding e p1 p2 using lo hi by simp
  next
    case False
    let ?y = "1 / ?a"
    have y1: "1 < ?y" using False apos by simp
    let ?N = "\<lceil>?y\<rceil>"
    have N2: "2 \<le> ?N" using y1 by linarith
    let ?n = "nat (?N - 1)"
    have n1: "0 < ?n" using N2 by linarith
    have e: "exponent x = - int (bitLength ?n)" using False by (simp add: exponent_def)
    from bitLength_bounds[OF n1] have b: "2 ^ (bitLength ?n - 1) \<le> ?n" "?n < 2 ^ bitLength ?n" by simp_all
    have bp: "0 < bitLength ?n" using n1 by (simp add: bitLength.simps[of ?n])
    have "0 \<le> ?N - 1" using N2 by linarith
    then have "real ?n = of_int (?N - 1)" by (rule of_nat_nat)
    then have rn: "real ?n = of_int ?N - 1" by (simp only: of_int_diff of_int_1)
    have yle: "?y \<le> of_int ?N" by simp
    have ygt: "of_int ?N - 1 < ?y" by linarith
    have "real ?n + 1 \<le> real (2 ^ bitLength ?n)" using b(2) by (metis Suc_leI of_nat_Suc of_nat_mono add.commute plus_1_eq_Suc)
    then have "of_int ?N \<le> real (2 ^ bitLength ?n)" unfolding rn by simp
    from order_trans[OF yle this] have yhi: "?y \<le> (2::real) ^ bitLength ?n"
      by (simp only: of_nat_power of_nat_numeral)
    have "real (2 ^ (bitLength ?n - 1)) \<le> real ?n" using b(1) by (rule of_nat_mono)
    then have "real (2 ^ (bitLength ?n - 1)) \<le> of_int ?N - 1" unfolding rn .
    from le_less_trans[OF this ygt] have ylo: "(2::real) ^ (bitLength ?n - 1) < ?y"
      by (simp only: of_nat_power of_nat_numeral)
    have lo: "1 / (2::real) ^ bitLength ?n \<le> ?a"
    proof -
      from yhi apos have "1 \<le> (2::real) ^ bitLength ?n * ?a"
        by (simp add: pos_divide_le_eq)
      then show ?thesis by (simp add: pos_divide_le_eq mult.commute)
    qed
    have hi: "?a < 1 / (2::real) ^ (bitLength ?n - 1)"
    proof -
      from ylo apos have "(2::real) ^ (bitLength ?n - 1) * ?a < 1"
        by (simp add: pos_less_divide_eq)
      then show ?thesis by (simp add: pos_less_divide_eq mult.commute)
    qed
    have p1: "(2::real) powi (- int (bitLength ?n)) = 1 / 2 ^ bitLength ?n"
      by (simp add: power_int_def field_simps)
    have p2: "(2::real) powi (- int (bitLength ?n) + 1) = 1 / 2 ^ (bitLength ?n - 1)"
    proof -
      obtain m where m: "bitLength ?n = Suc m" using bp by (cases "bitLength ?n") auto
      show ?thesis by (simp add: m power_int_def field_simps)
    qed
    show ?thesis unfolding e p1 p2 using lo hi by simp
  qed
  then show "2 powi exponent x \<le> \<bar>x\<bar>" and "\<bar>x\<bar> < 2 powi (exponent x + 1)" by simp_all
qed

lemma roundEven_error: "\<bar>of_int (roundEven y) - y\<bar> \<le> 1 / 2"
  unfolding roundEven_def Let_def by (auto simp: abs_if) linarith+

lemma binary64_error: "\<bar>binary64 x - x\<bar> \<le> \<bar>x\<bar> / 2 ^ 53"
proof (cases "x = 0")
  case True
  then show ?thesis by (simp add: binary64_def)
next
  case False
  let ?u = "(2::real) powi (exponent x - 52)"
  have upos: "0 < ?u" by simp
  have "binary64 x - x = (of_int (roundEven (x / ?u)) - x / ?u) * ?u"
    using False upos by (simp add: binary64_def field_simps)
  then have "\<bar>binary64 x - x\<bar> = \<bar>of_int (roundEven (x / ?u)) - x / ?u\<bar> * ?u"
    using upos by (simp add: abs_mult)
  also have "\<dots> \<le> (1 / 2) * ?u"
    using roundEven_error[of "x / ?u"] upos by (intro mult_right_mono) simp_all
  also have "\<dots> = 2 powi exponent x / 2 ^ 53"
    by (simp add: power_int_diff)
  also have "\<dots> \<le> \<bar>x\<bar> / 2 ^ 53"
    using exponent_bounds(1)[OF False] by (intro divide_right_mono) simp_all
  finally show ?thesis .
qed

lemma binary64_nonzero: "x \<noteq> 0 \<Longrightarrow> binary64 x \<noteq> 0"
proof
  assume x: "x \<noteq> 0" and z: "binary64 x = 0"
  from binary64_error[of x] z have "\<bar>x\<bar> \<le> \<bar>x\<bar> / 2 ^ 53" by simp
  then have "\<bar>x\<bar> * 2 ^ 53 \<le> \<bar>x\<bar>" by (simp add: field_simps)
  with x show False by simp
qed

lemma roundEven_of_int [simp]: "roundEven (of_int z) = z"
  by (simp add: roundEven_def)

lemma roundEven_bound:
  assumes "\<bar>y\<bar> < 2 ^ 53"
  shows "\<bar>roundEven y\<bar> \<le> 2 ^ 53"
proof -
  have "\<lfloor>y\<rfloor> \<le> roundEven y" "roundEven y \<le> \<lfloor>y\<rfloor> + 1"
    by (auto simp: roundEven_def Let_def)
  moreover have "- (2 ^ 53) \<le> \<lfloor>y\<rfloor>" using assms by (simp add: le_floor_iff abs_less_iff)
  moreover have "\<lfloor>y\<rfloor> < 2 ^ 53" using assms by (simp add: floor_less_iff abs_less_iff)
  ultimately show ?thesis by linarith
qed

lemma binary64_representable:
  assumes "\<bar>m\<bar> \<le> 2 ^ 53"
  shows "binary64 (of_int m * 2 powi j) = of_int m * 2 powi j"
proof (cases "m = 0")
  case True
  then show ?thesis by (simp add: binary64_def)
next
  case False
  let ?y = "of_int m * (2::real) powi j"
  let ?e = "exponent ?y"
  have y0: "?y \<noteq> 0" using False by simp
  have ay: "\<bar>?y\<bar> = of_int \<bar>m\<bar> * 2 powi j" by (simp add: abs_mult)
  have "2 powi ?e \<le> \<bar>?y\<bar>" by (rule exponent_bounds(1)[OF y0])
  also have "\<dots> \<le> 2 ^ 53 * 2 powi j"
    unfolding ay using assms by (intro mult_right_mono) (simp_all add: of_int_le_numeral_power_cancel_iff)
  also have "\<dots> = 2 powi (j + 53)" by (simp add: power_int_add)
  finally have le: "(2::real) powi ?e \<le> 2 powi (j + 53)" .
  have ele: "?e \<le> j + 53"
  proof (rule ccontr)
    assume "\<not> ?e \<le> j + 53"
    then have "j + 53 < ?e" by simp
    then have "(2::real) powi (j + 53) < 2 powi ?e" by (intro power_int_strict_increasing) simp_all
    with le show False by simp
  qed
  define d where "d = j - (?e - 52)"
  have dge: "-1 \<le> d" using ele by (simp add: d_def)
  have q: "?y / 2 powi (?e - 52) = of_int m * 2 powi d"
    by (simp add: d_def power_int_diff)
  have "\<exists>z. of_int m * (2::real) powi d = of_int z"
  proof (cases "0 \<le> d")
    case True
    then have "(2::real) powi d = of_int (2 ^ nat d)" by (simp add: power_int_def)
    then have "of_int m * (2::real) powi d = of_int (m * 2 ^ nat d)" by simp
    then show ?thesis by blast
  next
    case False
    with dge have d1: "d = -1" by simp
    then have e53: "?e = j + 53" by (simp add: d_def)
    have "2 powi (j + 53) \<le> \<bar>?y\<bar>" using exponent_bounds(1)[OF y0] e53 by simp
    then have "2 ^ 53 * (2::real) powi j \<le> of_int \<bar>m\<bar> * 2 powi j"
      unfolding ay by (simp add: power_int_add mult.commute)
    then have "(2::real) ^ 53 \<le> of_int \<bar>m\<bar>" by simp
    then have "2 ^ 53 \<le> \<bar>m\<bar>" by (simp add: numeral_power_le_of_int_cancel_iff)
    with assms have "\<bar>m\<bar> = 2 ^ 53" by simp
    then have "m = 2 ^ 53 \<or> m = - (2 ^ 53)" by linarith
    then have "even m" by auto
    then have "m = 2 * (m div 2)" by simp
    then obtain h where h: "m = 2 * h" by blast
    have "of_int m * (2::real) powi d = of_int h"
      unfolding d1 h by (simp add: power_int_minus)
    then show ?thesis by blast
  qed
  then obtain z where z: "of_int m * (2::real) powi d = of_int z" by blast
  have "binary64 ?y = of_int (roundEven (?y / 2 powi (?e - 52))) * 2 powi (?e - 52)"
    using y0 by (simp add: binary64_def)
  also have "\<dots> = of_int z * 2 powi (?e - 52)" unfolding q z by simp
  also have "\<dots> = (of_int m * 2 powi d) * 2 powi (?e - 52)" by (simp only: z)
  also have "\<dots> = ?y" by (simp add: d_def power_int_diff)
  finally show ?thesis .
qed

lemma binary64_idem [simp]: "binary64 (binary64 x) = binary64 x"
proof (cases "x = 0")
  case True
  then show ?thesis by (simp add: binary64_def)
next
  case False
  let ?u = "(2::real) powi (exponent x - 52)"
  have "\<bar>x\<bar> < 2 powi (exponent x + 1)" by (rule exponent_bounds(2)[OF False])
  also have "\<dots> = 2 ^ 53 * ?u" by (simp add: power_int_diff power_int_add)
  finally have "\<bar>x / ?u\<bar> < 2 ^ 53" by (simp add: abs_divide pos_divide_less_eq)
  then have m: "\<bar>roundEven (x / ?u)\<bar> \<le> 2 ^ 53" by (rule roundEven_bound)
  have "binary64 x = of_int (roundEven (x / ?u)) * ?u" using False by (simp add: binary64_def)
  with binary64_representable[OF m, of "exponent x - 52"] show ?thesis by simp
qed

lemma binary64_form: "\<exists>m j. \<bar>m\<bar> \<le> 2 ^ 53 \<and> binary64 x = of_int m * 2 powi j"
proof (cases "x = 0")
  case True
  have "\<bar>0::int\<bar> \<le> 2 ^ 53 \<and> binary64 x = of_int 0 * 2 powi 0"
    using True by (simp add: binary64_def)
  then show ?thesis by blast
next
  case False
  let ?u = "(2::real) powi (exponent x - 52)"
  have "\<bar>x\<bar> < 2 powi (exponent x + 1)" by (rule exponent_bounds(2)[OF False])
  also have "\<dots> = 2 ^ 53 * ?u" by (simp add: power_int_diff power_int_add)
  finally have "\<bar>x / ?u\<bar> < 2 ^ 53" by (simp add: abs_divide pos_divide_less_eq)
  then have m: "\<bar>roundEven (x / ?u)\<bar> \<le> 2 ^ 53" by (rule roundEven_bound)
  have "binary64 x = of_int (roundEven (x / ?u)) * ?u" using False by (simp add: binary64_def)
  with m show ?thesis by blast
qed

lemma binary64_double:
  assumes "binary64 x = x"
  shows "binary64 (2 * x) = 2 * x"
proof -
  from binary64_form[of x] assms obtain m j
    where m: "\<bar>m\<bar> \<le> 2 ^ 53" and x: "x = of_int m * 2 powi j" by auto
  have "2 * x = of_int m * 2 powi (j + 1)"
    unfolding x by (simp add: power_int_add)
  with binary64_representable[OF m, of "j + 1"] show ?thesis by simp
qed

lemma binary64_sum_error:
  "\<bar>binary64 (r + binary64 (c - r)) - c\<bar> \<le> (\<bar>c\<bar> + 2 * \<bar>c - r\<bar>) / 2 ^ 53"
proof -
  let ?o = "binary64 (c - r)"
  let ?e = "(2::real) ^ 53"
  have e1: "\<bar>?o - (c - r)\<bar> \<le> \<bar>c - r\<bar> / ?e" by (rule binary64_error)
  have e2: "\<bar>binary64 (r + ?o) - (r + ?o)\<bar> \<le> \<bar>r + ?o\<bar> / ?e" by (rule binary64_error)
  have "\<bar>r + ?o\<bar> \<le> \<bar>c\<bar> + \<bar>?o - (c - r)\<bar>" by linarith
  also have "\<dots> \<le> \<bar>c\<bar> + \<bar>c - r\<bar> / ?e" using e1 by simp
  also have "\<dots> \<le> \<bar>c\<bar> + \<bar>c - r\<bar>"
  proof -
    have "\<bar>c - r\<bar> / ?e \<le> \<bar>c - r\<bar> / 1" by (rule divide_left_mono) simp_all
    then show ?thesis by simp
  qed
  finally have "\<bar>r + ?o\<bar> / ?e \<le> (\<bar>c\<bar> + \<bar>c - r\<bar>) / ?e" by (simp add: divide_right_mono)
  with e2 have e3: "\<bar>binary64 (r + ?o) - (r + ?o)\<bar> \<le> (\<bar>c\<bar> + \<bar>c - r\<bar>) / ?e" by linarith
  have "\<bar>binary64 (r + ?o) - c\<bar> \<le> \<bar>binary64 (r + ?o) - (r + ?o)\<bar> + \<bar>?o - (c - r)\<bar>" by linarith
  also have "\<dots> \<le> (\<bar>c\<bar> + \<bar>c - r\<bar>) / ?e + \<bar>c - r\<bar> / ?e" using e1 e3 by linarith
  also have "\<dots> = (\<bar>c\<bar> + 2 * \<bar>c - r\<bar>) / ?e" by (simp add: add_divide_distrib)
  finally show ?thesis .
qed

lemma binary64_diff_error:
  "\<bar>(binary64 x - binary64 y) - (x - y)\<bar> \<le> (\<bar>x\<bar> + \<bar>y\<bar>) / 2 ^ 53"
proof -
  have "\<bar>(binary64 x - binary64 y) - (x - y)\<bar> \<le> \<bar>binary64 x - x\<bar> + \<bar>binary64 y - y\<bar>" by linarith
  also have "\<dots> \<le> \<bar>x\<bar> / 2 ^ 53 + \<bar>y\<bar> / 2 ^ 53"
    using binary64_error[of x] binary64_error[of y] by linarith
  finally show ?thesis by (simp add: add_divide_distrib)
qed


section \<open>The layout: the centring loop\<close>

lemma forEach_y:
  "distinct xs \<Longrightarrow> set xs \<subseteq> {..<length h} \<Longrightarrow>
   length (foldl (\<lambda>h node. h[node := (h ! node)\<lparr>pn_y := f (pn_y (h ! node))\<rparr>]) h xs) = length h \<and>
   (\<forall>b < length h.
      foldl (\<lambda>h node. h[node := (h ! node)\<lparr>pn_y := f (pn_y (h ! node))\<rparr>]) h xs ! b
        = (if b \<in> set xs then (h ! b)\<lparr>pn_y := f (pn_y (h ! b))\<rparr> else h ! b))"
proof (induction xs arbitrary: h)
  case Nil
  then show ?case by simp
next
  case (Cons a xs)
  let ?h1 = "h[a := (h ! a)\<lparr>pn_y := f (pn_y (h ! a))\<rparr>]"
  from Cons.prems have d: "distinct xs" "a \<notin> set xs" "a < length h" "set xs \<subseteq> {..<length ?h1}"
    by auto
  from Cons.IH[OF d(1) d(4)] d(2,3) show ?case
    by (auto simp: nth_list_update)
qed

lemma rootLayout_facts:
  "fst (layout (rootDataNode t) 0 None [] [] initialState) = 0"
  "length (heap (rootLayout t)) = nodeCount (rootDataNode t)"
  "allNodes (rootLayout t) = postAddrs (rootDataNode t) 0"
  "set (allNodes (rootLayout t)) = {0 ..< nodeCount (rootDataNode t)}"
  "distinct (allNodes (rootLayout t))"
  using layout_struct(1)[of "rootDataNode t" 0 None "[]" "[]" initialState]
    postAddrs_set(1)[of "rootDataNode t" 0]
  by (simp_all add: rootLayout_def initialState_def)

lemma layoutTree_Some:
  "layoutTree (Some t) h k =
     \<lparr>res_nodes = postAddrs (rootDataNode t) 0,
      res_edges = allEdges (rootLayout t),
      res_store = map (\<lambda>p. p\<lparr>pn_y := binary64 (pn_y p + rootYOffset t h k)\<rparr>) (heap (rootLayout t))\<rparr>"
proof -
  let ?s = "rootLayout t"
  let ?off = "rootYOffset t h k"
  let ?f = "\<lambda>y. binary64 (y + ?off)"
  have lt: "layout (rootDataNode t) 0 None [] [] initialState = (0, ?s)"
    using rootLayout_facts(1)[of t] by (simp add: rootLayout_def prod_eq_iff)
  have sub: "set (allNodes ?s) \<subseteq> {..<length (heap ?s)}"
    using rootLayout_facts(2,4)[of t] by auto
  note fe = forEach_y[OF rootLayout_facts(5) sub, of ?f]
  have "foldl (\<lambda>h node. h[node := (h ! node)\<lparr>pn_y := ?f (pn_y (h ! node))\<rparr>]) (heap ?s) (allNodes ?s)
      = map (\<lambda>p. p\<lparr>pn_y := ?f (pn_y p)\<rparr>) (heap ?s)"
  proof (rule nth_equalityI)
    show "length (foldl (\<lambda>h node. h[node := (h ! node)\<lparr>pn_y := ?f (pn_y (h ! node))\<rparr>]) (heap ?s) (allNodes ?s))
      = length (map (\<lambda>p. p\<lparr>pn_y := ?f (pn_y p)\<rparr>) (heap ?s))"
      using fe by simp
  next
    fix i assume "i < length (foldl (\<lambda>h node. h[node := (h ! node)\<lparr>pn_y := ?f (pn_y (h ! node))\<rparr>]) (heap ?s) (allNodes ?s))"
    with fe have i: "i < length (heap ?s)" by simp
    then have "i \<in> set (allNodes ?s)" using rootLayout_facts(2,4)[of t] by simp
    with fe i show "foldl (\<lambda>h node. h[node := (h ! node)\<lparr>pn_y := ?f (pn_y (h ! node))\<rparr>]) (heap ?s) (allNodes ?s) ! i
      = map (\<lambda>p. p\<lparr>pn_y := ?f (pn_y p)\<rparr>) (heap ?s) ! i"
      by simp
  qed
  then show ?thesis
    by (simp add: layoutTree_def lt Let_def rootLayout_facts(3) rootYOffset_def centreLine_def
        rootLayout_def[symmetric])
qed

lemma rootLayout_postorder:
  "map (\<lambda>b. (pn_indexPath (heap (rootLayout t) ! b), nodeData (heap (rootLayout t) ! b)))
       (postAddrs (rootDataNode t) 0) = postorder (rootDataNode t) []"
  using layout_postorder(1)[of "rootDataNode t" 0 None "[]" "[]" initialState]
  by (simp add: rootLayout_def initialState_def)

lemma rootLayout_leaf_ys:
  "map (\<lambda>b. pn_y (heap (rootLayout t) ! b))
       (filter (\<lambda>b. isLeaf (nodeData (heap (rootLayout t) ! b))) (postAddrs (rootDataNode t) 0))
     = map (\<lambda>j. PADDING + (NODE_HEIGHT + VERTICAL_SPACING) * real j) [0..<leafCount (rootDataNode t)]"
  using layout_leaf_ys(1)[of "rootDataNode t" 0 None "[]" "[]" initialState]
  by (simp add: rootLayout_def initialState_def)

lemma rootLayout_centred:
  "\<forall>b \<in> set (postAddrs (rootDataNode t) 0).
     set (pn_children (heap (rootLayout t) ! b))
       \<subseteq> set (takeWhile (\<lambda>x. x \<noteq> b) (postAddrs (rootDataNode t) 0)) \<and>
     centredOnChildren (heap (rootLayout t)) b"
  using layout_centred(1)[of "rootDataNode t" initialState 0 None "[]" "[]"]
  by (simp add: rootLayout_def initialState_def)

lemma layoutTree_nth:
  "b < nodeCount (rootDataNode t) \<Longrightarrow>
   res_store (layoutTree (Some t) h k) ! b
     = (heap (rootLayout t) ! b)\<lparr>pn_y := binary64 (pn_y (heap (rootLayout t) ! b) + rootYOffset t h k)\<rparr>"
  by (simp add: layoutTree_Some rootLayout_facts(2))

lemma layoutTree_nodes:
  "res_nodes (layoutTree (Some t) h k) = postAddrs (rootDataNode t) 0"
  "set (res_nodes (layoutTree (Some t) h k)) = {0 ..< nodeCount (rootDataNode t)}"
  "length (res_store (layoutTree (Some t) h k)) = nodeCount (rootDataNode t)"
  using rootLayout_facts(2,3,4)[of t] by (simp_all add: layoutTree_Some)

lemma leafNodes_rootLayout:
  "leafNodes (rootLayout t)
     = filter (\<lambda>b. isLeaf (nodeData (heap (rootLayout t) ! b))) (postAddrs (rootDataNode t) 0)"
  by (simp add: leafNodes_def rootLayout_facts(3))

lemma rootLayout_root:
  "nodeData (heap (rootLayout t) ! 0) = rootDataNode t"
proof -
  let ?n = "rootDataNode t" and ?s = "rootLayout t"
  have "(pn_indexPath (heap ?s ! last (postAddrs ?n 0)), nodeData (heap ?s ! last (postAddrs ?n 0)))
      = last (postorder ?n [])"
    using rootLayout_postorder[of t, symmetric] postAddrs_last(2)[of ?n 0] by (simp add: last_map)
  then show ?thesis by (cases ?n) (simp add: postAddrs_last)
qed

lemma exTree2_nodes: "res_nodes (layoutTree (Some exTree2) 600 1) = [2, 3, 1, 4, 0]"
  by (simp add: layoutTree_nodes(1) exTree2_def rootDataNode_def)


lemma exTree2_pre_ys: "map pn_y (heap (rootLayout exTree2)) = [275 / 2, 85, 50, 120, 190]"
  by (simp add: rootLayout_def exTree2_def rootDataNode_def initialState_def Let_def
      LEVEL_SPACING_def PADDING_def NODE_HEIGHT_def VERTICAL_SPACING_def)


lemma exTree2_leaves: "leafNodes (rootLayout exTree2) = [2, 3, 4]"
  by code_simp

lemma exTreeAB_pre_ys: "map pn_y (heap (rootLayout exTreeAB)) = [85, 50, 120]"
  by (simp add: rootLayout_def exTreeAB_def rootDataNode_def initialState_def Let_def
      LEVEL_SPACING_def PADDING_def NODE_HEIGHT_def VERTICAL_SPACING_def)

lemma exTreeAB_centreLine: "centreLine 201 5 = 2828823515942093 / 140737488355328"
  by code_simp

lemma exTreeAB_offset: "rootYOffset exTreeAB 201 5 = - (2283465748565197 / 35184372088832)"
proof -
  have r: "pn_y (heap (rootLayout exTreeAB) ! 0) = 85"
    using arg_cong[OF exTreeAB_pre_ys, of "\<lambda>l. l ! 0"] rootLayout_facts(2)[of exTreeAB]
    by (simp add: exTreeAB_def rootDataNode_def)
  have "binary64 (2828823515942093 / 140737488355328 - 85) = - (2283465748565197 / 35184372088832)"
    by code_simp
  then show ?thesis by (simp only: rootYOffset_def exTreeAB_centreLine r)
qed

lemma exTreeAB_root_y:
  "pn_y (res_store (layoutTree (Some exTreeAB) 201 5) ! 0) = 707205878985523 / 35184372088832"
proof -
  have r: "pn_y (heap (rootLayout exTreeAB) ! 0) = 85"
    using arg_cong[OF exTreeAB_pre_ys, of "\<lambda>l. l ! 0"] rootLayout_facts(2)[of exTreeAB]
    by (simp add: exTreeAB_def rootDataNode_def)
  have "pn_y (res_store (layoutTree (Some exTreeAB) 201 5) ! 0)
      = binary64 (pn_y (heap (rootLayout exTreeAB) ! 0) + rootYOffset exTreeAB 201 5)"
    by (simp add: layoutTree_nth nodeCount_pos)
  also have "\<dots> = binary64 (85 + - (2283465748565197 / 35184372088832))"
    by (simp only: r exTreeAB_offset)
  also have "\<dots> = 707205878985523 / 35184372088832"
    by code_simp
  finally show ?thesis .
qed

lemma exTree2_centreLine: "centreLine 601 (5 / 4) = 8458323050155213 / 35184372088832"
  by code_simp

lemma exTree2_offset: "rootYOffset exTree2 601 (5 / 4) = 3620471887940813 / 35184372088832"
proof -
  have r: "pn_y (heap (rootLayout exTree2) ! 0) = 275 / 2"
    using arg_cong[OF exTree2_pre_ys, of "\<lambda>l. l ! 0"] rootLayout_facts(2)[of exTree2]
    by (simp add: exTree2_def rootDataNode_def)
  have "binary64 (8458323050155213 / 35184372088832 - 275 / 2) = 3620471887940813 / 35184372088832"
    by code_simp
  then show ?thesis by (simp only: rootYOffset_def exTree2_centreLine r)
qed

lemma exTree2_final_ys:
  "pn_y (res_store (layoutTree (Some exTree2) 601 (5 / 4)) ! 3) = 7842596538600653 / 35184372088832"
  "pn_y (res_store (layoutTree (Some exTree2) 601 (5 / 4)) ! 4) = 2576375646204723 / 8796093022208"
proof -
  have n: "nodeCount (rootDataNode exTree2) = 5" by (simp add: exTree2_def rootDataNode_def)
  have r: "pn_y (heap (rootLayout exTree2) ! 3) = 120" "pn_y (heap (rootLayout exTree2) ! 4) = 190"
    using arg_cong[OF exTree2_pre_ys, of "\<lambda>l. l ! 3"] arg_cong[OF exTree2_pre_ys, of "\<lambda>l. l ! 4"]
      rootLayout_facts(2)[of exTree2] n
    by simp_all
  have "pn_y (res_store (layoutTree (Some exTree2) 601 (5 / 4)) ! 3)
      = binary64 (pn_y (heap (rootLayout exTree2) ! 3) + rootYOffset exTree2 601 (5 / 4))"
    by (simp add: layoutTree_nth n)
  also have "\<dots> = binary64 (120 + 3620471887940813 / 35184372088832)"
    by (simp only: r exTree2_offset)
  also have "\<dots> = 7842596538600653 / 35184372088832"
    by code_simp
  finally show "pn_y (res_store (layoutTree (Some exTree2) 601 (5 / 4)) ! 3)
      = 7842596538600653 / 35184372088832" .
  have "pn_y (res_store (layoutTree (Some exTree2) 601 (5 / 4)) ! 4)
      = binary64 (pn_y (heap (rootLayout exTree2) ! 4) + rootYOffset exTree2 601 (5 / 4))"
    by (simp add: layoutTree_nth n)
  also have "\<dots> = binary64 (190 + 3620471887940813 / 35184372088832)"
    by (simp only: r exTree2_offset)
  also have "\<dots> = 2576375646204723 / 8796093022208"
    by code_simp
  finally show "pn_y (res_store (layoutTree (Some exTree2) 601 (5 / 4)) ! 4)
      = 2576375646204723 / 8796093022208" .
qed

lemma binary64_inputs:
  "binary64 201 = 201" "binary64 5 = 5" "binary64 601 = 601" "binary64 (5 / 4) = 5 / 4"
  by code_simp+


section \<open>The layout: claims\<close>



text \<open>
  C4. The leaves of the tree (absent or empty \<^verbatim>\<open>subtopics\<close>), in the order of the
  traversal, are the leaf objects of the layout in list order; when \<^verbatim>\<open>layout\<close> has
  returned, before the offset is added, their \<open>y\<close> are \<open>50, 120, 190, ...\<close> (the
  counter seeded at \<^verbatim>\<open>PADDING\<close> = 50, step
  \<^verbatim>\<open>NODE_HEIGHT + VERTICAL_SPACING\<close> = 70), so that consecutive leaves are exactly
  70 apart, increasing.
\<close>

theorem layout_leaf_spacing:
  "map (\<lambda>b. nodeData (heap (rootLayout t) ! b)) (leafNodes (rootLayout t))
     = filter isLeaf (map snd (postorder (rootDataNode t) [])) \<and>
   map (\<lambda>b. pn_y (heap (rootLayout t) ! b)) (leafNodes (rootLayout t))
     = map (\<lambda>j. 50 + 70 * real j) [0..<leafCount (rootDataNode t)] \<and>
   (\<forall>j. Suc j < length (leafNodes (rootLayout t)) \<longrightarrow>
      pn_y (heap (rootLayout t) ! (leafNodes (rootLayout t) ! Suc j))
        = pn_y (heap (rootLayout t) ! (leafNodes (rootLayout t) ! j)) + 70)"
proof -
  let ?n = "rootDataNode t" and ?s = "rootLayout t"
  let ?lv = "leafNodes ?s"
  have e: "map snd (postorder ?n []) = map (\<lambda>b. nodeData (heap ?s ! b)) (postAddrs ?n 0)"
    using arg_cong[OF rootLayout_postorder[of t], of "map snd"] by (simp add: comp_def)
  have c1: "map (\<lambda>b. nodeData (heap ?s ! b)) ?lv = filter isLeaf (map snd (postorder ?n []))"
    unfolding e by (simp add: leafNodes_rootLayout filter_map comp_def)
  have c2: "map (\<lambda>b. pn_y (heap ?s ! b)) ?lv = map (\<lambda>j. 50 + 70 * real j) [0..<leafCount ?n]"
    using rootLayout_leaf_ys[of t]
    by (simp add: leafNodes_rootLayout PADDING_def NODE_HEIGHT_def VERTICAL_SPACING_def)
  have len: "length ?lv = leafCount ?n"
    using arg_cong[OF c2, of length] by simp
  have c3: "\<forall>j. Suc j < length ?lv \<longrightarrow>
      pn_y (heap ?s ! (?lv ! Suc j)) = pn_y (heap ?s ! (?lv ! j)) + 70"
  proof (intro allI impI)
    fix j assume j: "Suc j < length ?lv"
    then have j': "j < length ?lv" by simp
    have a: "pn_y (heap ?s ! (?lv ! Suc j)) = 50 + 70 * real (Suc j)"
      using arg_cong[OF c2, of "\<lambda>l. l ! Suc j"] j len by simp
    have b: "pn_y (heap ?s ! (?lv ! j)) = 50 + 70 * real j"
      using arg_cong[OF c2, of "\<lambda>l. l ! j"] j' len by simp
    show "pn_y (heap ?s ! (?lv ! Suc j)) = pn_y (heap ?s ! (?lv ! j)) + 70"
      unfolding a b by simp
  qed
  show ?thesis by (rule conjI[OF c1 conjI[OF c2 c3]])
qed

theorem layout_leaf_spacing_witness:
  "leafNodes (rootLayout exTree2) = [2, 3, 4] \<and>
   Suc 0 < length (leafNodes (rootLayout exTree2)) \<and>
   map (\<lambda>b. pn_y (heap (rootLayout exTree2) ! b)) (leafNodes (rootLayout exTree2)) = [50, 120, 190] \<and>
   pn_y (heap (rootLayout exTree2) ! (leafNodes (rootLayout exTree2) ! Suc 0))
     = pn_y (heap (rootLayout exTree2) ! (leafNodes (rootLayout exTree2) ! 0)) + 70"
proof -
  have l: "Suc 0 < length (leafNodes (rootLayout exTree2))"
    by (simp add: exTree2_leaves)
  have n: "leafCount (rootDataNode exTree2) = 3"
    by (simp add: exTree2_def rootDataNode_def)
  have u: "[0..<3] = [0, 1, 2]" by (simp add: upt_rec)
  note th = layout_leaf_spacing [of exTree2]
  from th have "map (\<lambda>b. pn_y (heap (rootLayout exTree2) ! b)) (leafNodes (rootLayout exTree2))
      = [50, 120, 190]"
    unfolding n u by simp
  moreover from th l
  have "pn_y (heap (rootLayout exTree2) ! (leafNodes (rootLayout exTree2) ! Suc 0))
     = pn_y (heap (rootLayout exTree2) ! (leafNodes (rootLayout exTree2) ! 0)) + 70"
    by blast
  ultimately show ?thesis using l exTree2_leaves by blast
qed

text \<open>
  C5 (as amended). For a zoom \<open>k\<close> other than zero the divisor \<^verbatim>\<open>2 * viewTransform.k\<close>
  is not zero, and after the centring loop the root is the last element of the list, at
  address 0, and every node's \<open>y\<close> is the rounded sum of its \<open>y\<close> before the loop
  and the one offset \<^verbatim>\<open>rootYOffset\<close>. The root's \<open>y\<close> is the computed quotient
  \<^verbatim>\<open>containerHeight / (2 * viewTransform.k)\<close> up to rounding: it differs from it by
  at most \<open>(\<bar>c\<bar> + 2 \<bar>c - r\<bar>) / 2\<^sup>5\<^sup>3\<close>, for \<open>c\<close> the quotient and \<open>r\<close> the root's
  \<open>y\<close> before the loop, and it is equal to it when the difference \<open>c - r\<close> is a
  binary64 number. For a binary64 number \<open>k\<close> the computed quotient differs from the
  real quotient \<open>h / (2 k)\<close> by at most \<open>\<bar>h / (2 k)\<bar> / 2\<^sup>5\<^sup>3\<close>. The difference of the
  \<open>y\<close> of two nodes is what it was before the loop up to
  \<open>(\<bar>y\<^sub>a + offset\<bar> + \<bar>y\<^sub>b + offset\<bar>) / 2\<^sup>5\<^sup>3\<close>. Overflow to infinity is not modelled.
\<close>

theorem layout_root_centred:
  assumes "k \<noteq> 0"
  shows "binary64 (2 * k) \<noteq> 0 \<and>
         last (res_nodes (layoutTree (Some t) h k)) = 0 \<and>
         nodeData (res_store (layoutTree (Some t) h k) ! 0) = rootDataNode t \<and>
         (\<forall>a \<in> set (res_nodes (layoutTree (Some t) h k)).
            pn_y (res_store (layoutTree (Some t) h k) ! a)
              = binary64 (pn_y (heap (rootLayout t) ! a) + rootYOffset t h k)) \<and>
         \<bar>pn_y (res_store (layoutTree (Some t) h k) ! 0) - centreLine h k\<bar>
            \<le> (\<bar>centreLine h k\<bar> + 2 * \<bar>centreLine h k - pn_y (heap (rootLayout t) ! 0)\<bar>) / 2 ^ 53 \<and>
         (binary64 (centreLine h k - pn_y (heap (rootLayout t) ! 0))
            = centreLine h k - pn_y (heap (rootLayout t) ! 0) \<longrightarrow>
          pn_y (res_store (layoutTree (Some t) h k) ! 0) = centreLine h k) \<and>
         (binary64 k = k \<longrightarrow> \<bar>centreLine h k - h / (2 * k)\<bar> \<le> \<bar>h / (2 * k)\<bar> / 2 ^ 53) \<and>
         (\<forall>a \<in> set (res_nodes (layoutTree (Some t) h k)).
          \<forall>b \<in> set (res_nodes (layoutTree (Some t) h k)).
            \<bar>(pn_y (res_store (layoutTree (Some t) h k) ! a) - pn_y (res_store (layoutTree (Some t) h k) ! b))
               - (pn_y (heap (rootLayout t) ! a) - pn_y (heap (rootLayout t) ! b))\<bar>
              \<le> (\<bar>pn_y (heap (rootLayout t) ! a) + rootYOffset t h k\<bar>
                   + \<bar>pn_y (heap (rootLayout t) ! b) + rootYOffset t h k\<bar>) / 2 ^ 53)"
proof -
  let ?r = "layoutTree (Some t) h k" and ?n = "rootDataNode t" and ?s = "rootLayout t"
  let ?c = "centreLine h k" and ?off = "rootYOffset t h k"
  note nd = layoutTree_nodes[of t h k]
  have dz: "binary64 (2 * k) \<noteq> 0" using assms by (intro binary64_nonzero) simp
  have la: "last (res_nodes ?r) = 0" by (simp add: nd(1) postAddrs_last)
  have z: "0 < nodeCount ?n" by (rule nodeCount_pos)
  have rd: "nodeData (res_store ?r ! 0) = ?n"
    using z rootLayout_root[of t] by (simp add: layoutTree_nth nodeData_def)
  have sh: "\<forall>a \<in> set (res_nodes ?r).
      pn_y (res_store ?r ! a) = binary64 (pn_y (heap ?s ! a) + ?off)"
    using nd(2) by (simp add: layoutTree_nth)
  have ry: "pn_y (res_store ?r ! 0) = binary64 (pn_y (heap ?s ! 0) + binary64 (?c - pn_y (heap ?s ! 0)))"
    using z by (simp add: layoutTree_nth rootYOffset_def)
  have rb: "\<bar>pn_y (res_store ?r ! 0) - ?c\<bar> \<le> (\<bar>?c\<bar> + 2 * \<bar>?c - pn_y (heap ?s ! 0)\<bar>) / 2 ^ 53"
    unfolding ry by (rule binary64_sum_error)
  have ci: "binary64 ?c = ?c" by (simp add: centreLine_def)
  have re: "binary64 (?c - pn_y (heap ?s ! 0)) = ?c - pn_y (heap ?s ! 0) \<longrightarrow>
      pn_y (res_store ?r ! 0) = ?c"
    unfolding ry using ci by simp
  have cq: "binary64 k = k \<longrightarrow> \<bar>?c - h / (2 * k)\<bar> \<le> \<bar>h / (2 * k)\<bar> / 2 ^ 53"
  proof
    assume "binary64 k = k"
    then have "binary64 (2 * k) = 2 * k" by (rule binary64_double)
    then have "?c = binary64 (h / (2 * k))" by (simp add: centreLine_def)
    then show "\<bar>?c - h / (2 * k)\<bar> \<le> \<bar>h / (2 * k)\<bar> / 2 ^ 53"
      using binary64_error[of "h / (2 * k)"] by simp
  qed
  have df: "\<forall>a \<in> set (res_nodes ?r). \<forall>b \<in> set (res_nodes ?r).
      \<bar>(pn_y (res_store ?r ! a) - pn_y (res_store ?r ! b)) - (pn_y (heap ?s ! a) - pn_y (heap ?s ! b))\<bar>
        \<le> (\<bar>pn_y (heap ?s ! a) + ?off\<bar> + \<bar>pn_y (heap ?s ! b) + ?off\<bar>) / 2 ^ 53"
  proof (intro ballI)
    fix a b assume a: "a \<in> set (res_nodes ?r)" and b: "b \<in> set (res_nodes ?r)"
    from sh a have ya: "pn_y (res_store ?r ! a) = binary64 (pn_y (heap ?s ! a) + ?off)" by blast
    from sh b have yb: "pn_y (res_store ?r ! b) = binary64 (pn_y (heap ?s ! b) + ?off)" by blast
    show "\<bar>(pn_y (res_store ?r ! a) - pn_y (res_store ?r ! b)) - (pn_y (heap ?s ! a) - pn_y (heap ?s ! b))\<bar>
        \<le> (\<bar>pn_y (heap ?s ! a) + ?off\<bar> + \<bar>pn_y (heap ?s ! b) + ?off\<bar>) / 2 ^ 53"
      unfolding ya yb
      using binary64_diff_error[of "pn_y (heap ?s ! a) + ?off" "pn_y (heap ?s ! b) + ?off"]
      by simp
  qed
  show ?thesis
    by (rule conjI[OF dz conjI[OF la conjI[OF rd conjI[OF sh conjI[OF rb conjI[OF re conjI[OF cq df]]]]]]])
qed

theorem layout_root_centred_witness:
  "(1::real) \<noteq> 0 \<and>
   centreLine 600 1 = 300 \<and>
   pn_y (heap (rootLayout exTree2) ! 0) = 275 / 2 \<and>
   binary64 (centreLine 600 1 - pn_y (heap (rootLayout exTree2) ! 0))
     = centreLine 600 1 - pn_y (heap (rootLayout exTree2) ! 0) \<and>
   pn_y (res_store (layoutTree (Some exTree2) 600 1) ! 0) = centreLine 600 1 \<and>
   binary64 1 = 1 \<and>
   \<bar>centreLine 600 1 - 600 / (2 * 1)\<bar> \<le> \<bar>600 / (2 * 1)\<bar> / 2 ^ 53 \<and>
   2 \<in> set (res_nodes (layoutTree (Some exTree2) 600 1)) \<and>
   4 \<in> set (res_nodes (layoutTree (Some exTree2) 600 1)) \<and>
   pn_y (res_store (layoutTree (Some exTree2) 600 1) ! 2)
     = binary64 (pn_y (heap (rootLayout exTree2) ! 2) + rootYOffset exTree2 600 1) \<and>
   \<bar>(pn_y (res_store (layoutTree (Some exTree2) 600 1) ! 4)
       - pn_y (res_store (layoutTree (Some exTree2) 600 1) ! 2))
      - (pn_y (heap (rootLayout exTree2) ! 4) - pn_y (heap (rootLayout exTree2) ! 2))\<bar>
     \<le> (\<bar>pn_y (heap (rootLayout exTree2) ! 4) + rootYOffset exTree2 600 1\<bar>
          + \<bar>pn_y (heap (rootLayout exTree2) ! 2) + rootYOffset exTree2 600 1\<bar>) / 2 ^ 53"
proof -
  have k: "(1::real) \<noteq> 0" by simp
  have c: "centreLine 600 1 = 300" by code_simp
  have r: "pn_y (heap (rootLayout exTree2) ! 0) = 275 / 2" by code_simp
  have x: "binary64 (centreLine 600 1 - pn_y (heap (rootLayout exTree2) ! 0))
     = centreLine 600 1 - pn_y (heap (rootLayout exTree2) ! 0)" by code_simp
  have o: "binary64 1 = 1" by code_simp
  have m: "2 \<in> set (res_nodes (layoutTree (Some exTree2) 600 1))"
    "4 \<in> set (res_nodes (layoutTree (Some exTree2) 600 1))"
    by (simp_all add: exTree2_nodes)
  note th = layout_root_centred [OF k, of exTree2 600]
  from th x have "pn_y (res_store (layoutTree (Some exTree2) 600 1) ! 0) = centreLine 600 1"
    by blast
  moreover from th o have "\<bar>centreLine 600 1 - 600 / (2 * 1)\<bar> \<le> \<bar>600 / (2 * 1)\<bar> / 2 ^ 53"
    by blast
  moreover from th m have "pn_y (res_store (layoutTree (Some exTree2) 600 1) ! 2)
     = binary64 (pn_y (heap (rootLayout exTree2) ! 2) + rootYOffset exTree2 600 1)"
    by blast
  moreover from th m have "\<bar>(pn_y (res_store (layoutTree (Some exTree2) 600 1) ! 4)
       - pn_y (res_store (layoutTree (Some exTree2) 600 1) ! 2))
      - (pn_y (heap (rootLayout exTree2) ! 4) - pn_y (heap (rootLayout exTree2) ! 2))\<bar>
     \<le> (\<bar>pn_y (heap (rootLayout exTree2) ! 4) + rootYOffset exTree2 600 1\<bar>
          + \<bar>pn_y (heap (rootLayout exTree2) ! 2) + rootYOffset exTree2 600 1\<bar>) / 2 ^ 53"
    by blast
  ultimately show ?thesis using k c r x o m by blast
qed

theorem layout_root_centred_counterexample:
  "binary64 201 = 201 \<and> binary64 5 = 5 \<and>
   centreLine 201 5 = 2828823515942093 / 140737488355328 \<and>
   pn_y (res_store (layoutTree (Some exTreeAB) 201 5) ! 0) = 707205878985523 / 35184372088832 \<and>
   pn_y (res_store (layoutTree (Some exTreeAB) 201 5) ! 0) \<noteq> centreLine 201 5 \<and>
   pn_y (res_store (layoutTree (Some exTreeAB) 201 5) ! 0) \<noteq> 201 / (2 * 5) \<and>
   binary64 601 = 601 \<and> binary64 (5 / 4) = 5 / 4 \<and>
   pn_y (heap (rootLayout exTree2) ! 4) - pn_y (heap (rootLayout exTree2) ! 3) = 70 \<and>
   pn_y (res_store (layoutTree (Some exTree2) 601 (5 / 4)) ! 4)
     - pn_y (res_store (layoutTree (Some exTree2) 601 (5 / 4)) ! 3)
     = 2462906046218239 / 35184372088832 \<and>
   pn_y (res_store (layoutTree (Some exTree2) 601 (5 / 4)) ! 4)
     - pn_y (res_store (layoutTree (Some exTree2) 601 (5 / 4)) ! 3)
     \<noteq> pn_y (heap (rootLayout exTree2) ! 4) - pn_y (heap (rootLayout exTree2) ! 3)"
proof -
  have n: "nodeCount (rootDataNode exTree2) = 5" by (simp add: exTree2_def rootDataNode_def)
  have r: "pn_y (heap (rootLayout exTree2) ! 3) = 120" "pn_y (heap (rootLayout exTree2) ! 4) = 190"
    using arg_cong[OF exTree2_pre_ys, of "\<lambda>l. l ! 3"] arg_cong[OF exTree2_pre_ys, of "\<lambda>l. l ! 4"]
      rootLayout_facts(2)[of exTree2] n
    by simp_all
  show ?thesis
    unfolding binary64_inputs exTreeAB_centreLine exTreeAB_root_y exTree2_final_ys r
    by simp
qed

text \<open>
  C10. The list \<^verbatim>\<open>nodes\<close> holds each object of the store exactly once (distinct
  addresses, as many as the tree has nodes, covering the store); read in list order, the
  index paths and tree data of the objects are the post-order traversal of the tree; the
  last element is the root; and the children of every node stand before it in the list.
\<close>

theorem layout_nodes_postorder:
  "distinct (res_nodes (layoutTree (Some t) h k)) \<and>
   length (res_nodes (layoutTree (Some t) h k)) = nodeCount (rootDataNode t) \<and>
   set (res_nodes (layoutTree (Some t) h k)) = {0 ..< length (res_store (layoutTree (Some t) h k))} \<and>
   map (\<lambda>b. (pn_indexPath (res_store (layoutTree (Some t) h k) ! b),
              nodeData (res_store (layoutTree (Some t) h k) ! b)))
       (res_nodes (layoutTree (Some t) h k)) = postorder (rootDataNode t) [] \<and>
   (pn_indexPath (res_store (layoutTree (Some t) h k) ! last (res_nodes (layoutTree (Some t) h k))),
    nodeData (res_store (layoutTree (Some t) h k) ! last (res_nodes (layoutTree (Some t) h k))))
     = ([], rootDataNode t) \<and>
   (\<forall>b \<in> set (res_nodes (layoutTree (Some t) h k)).
      set (pn_children (res_store (layoutTree (Some t) h k) ! b))
        \<subseteq> set (takeWhile (\<lambda>x. x \<noteq> b) (res_nodes (layoutTree (Some t) h k))))"
proof -
  let ?r = "layoutTree (Some t) h k" and ?n = "rootDataNode t" and ?s = "rootLayout t"
  note nd = layoutTree_nodes[of t h k]
  have d: "distinct (res_nodes ?r)" using postAddrs_set(1)[of ?n 0] by (simp add: nd(1))
  have l: "length (res_nodes ?r) = nodeCount ?n" by (simp add: nd(1) postAddrs_length)
  have st: "set (res_nodes ?r) = {0 ..< length (res_store ?r)}" by (simp add: nd(2,3))
  have view: "\<forall>b \<in> set (postAddrs ?n 0).
      (pn_indexPath (res_store ?r ! b), nodeData (res_store ?r ! b))
        = (pn_indexPath (heap ?s ! b), nodeData (heap ?s ! b))"
    using nd(1,2) by (simp add: layoutTree_nth)
  have m: "map (\<lambda>b. (pn_indexPath (res_store ?r ! b), nodeData (res_store ?r ! b))) (res_nodes ?r)
      = postorder ?n []"
    unfolding nd(1) using view rootLayout_postorder[of t] by (simp cong: map_cong)
  have ne: "res_nodes ?r \<noteq> []" using l nodeCount_pos[of ?n] by auto
  have "last (map (\<lambda>b. (pn_indexPath (res_store ?r ! b), nodeData (res_store ?r ! b))) (res_nodes ?r))
      = last (postorder ?n [])" by (simp only: m)
  then have la: "(pn_indexPath (res_store ?r ! last (res_nodes ?r)),
      nodeData (res_store ?r ! last (res_nodes ?r))) = ([], ?n)"
    using ne by (cases ?n) (simp add: last_map)
  have ch: "\<forall>b \<in> set (res_nodes ?r).
      set (pn_children (res_store ?r ! b)) \<subseteq> set (takeWhile (\<lambda>x. x \<noteq> b) (res_nodes ?r))"
    using rootLayout_centred[of t] nd(1,2) by (simp add: layoutTree_nth)
  from d l st m la ch show ?thesis by blast
qed

theorem layout_nodes_postorder_witness:
  "res_nodes (layoutTree (Some exTree2) 600 1) = [2, 3, 1, 4, 0] \<and>
   1 \<in> set (res_nodes (layoutTree (Some exTree2) 600 1)) \<and>
   set (pn_children (res_store (layoutTree (Some exTree2) 600 1) ! 1))
     \<subseteq> set (takeWhile (\<lambda>x. x \<noteq> 1) (res_nodes (layoutTree (Some exTree2) 600 1)))"
proof -
  have m: "1 \<in> set (res_nodes (layoutTree (Some exTree2) 600 1))"
    by (simp add: exTree2_nodes)
  from layout_nodes_postorder [of exTree2 600 1] m
  have "set (pn_children (res_store (layoutTree (Some exTree2) 600 1) ! 1))
     \<subseteq> set (takeWhile (\<lambda>x. x \<noteq> 1) (res_nodes (layoutTree (Some exTree2) 600 1)))"
    by blast
  with m exTree2_nodes show ?thesis by blast
qed


section \<open>Clicks and requests: lemmas\<close>

text \<open>The centring loop changes \<open>y\<close> only, which a click does not read.\<close>

lemma layoutTree_click:
  assumes "treeData st = Some t" and "b < nodeCount (rootDataNode t)"
  shows "handleNodeClick (res_store (layoutTree (treeData st) h k) ! b)
           = handleNodeClick (heap (rootLayout t) ! b)"
    and "pn_isLoading (res_store (layoutTree (treeData st) h k) ! b)
           = pn_isLoading (heap (rootLayout t) ! b)"
  using assms by (simp_all add: layoutTree_nth handleNodeClick_def canExpand_def)

lemma exRootOnly_begin:
  "treeData (handleExpand_begin exRootOnly [] ''X'') = treeData exRootOnly"
  "pending (handleExpand_begin (handleExpand_begin exRootOnly [] ''X'') [] ''X'')
     = [([], ''X''), ([], ''X'')]"
  by code_simp+

lemma exRootOnly_end:
  "handleExpand_end (treeData exRootOnly) [] (Some [TreeNodeData ''N'' ''n'' None None])
     = treeData exRootOnly"
  by code_simp

lemma exRootOnly_click:
  "handleNodeClick (heap (rootLayout \<lparr>topic = ''X'', tree_description = ''d'', tree_subtopics = []\<rparr>) ! 0)
     = Some ([], ''X'')"
  "pn_isLoading (heap (rootLayout \<lparr>topic = ''X'', tree_description = ''d'', tree_subtopics = []\<rparr>) ! 0)
     = None"
  by code_simp+

lemma exIdle_begin:
  "treeData exIdle = Some exTreeAB"
  "treeData (handleExpand_begin exIdle [0] ''A'') = Some exTree3"
  "pending (handleExpand_begin exIdle [0] ''A'') = [([0], ''A'')]"
  by code_simp+

lemma exIdle_click:
  "handleNodeClick (heap (rootLayout exTreeAB) ! 1) = Some ([0], ''A'')"
  "pn_isLoading (heap (rootLayout exTree3) ! 1) = Some True"
  "handleNodeClick (heap (rootLayout exTree3) ! 1) = None"
  by code_simp+

lemma exIdle_count:
  "1 < nodeCount (rootDataNode exTreeAB)" "1 < nodeCount (rootDataNode exTree3)"
  by (simp_all add: exTreeAB_def exTree3_def rootDataNode_def)

section \<open>Clicks and requests: claims\<close>

text \<open>
  C8. The guard of \<^verbatim>\<open>handleNodeClick\<close> is as the specification says: a click on a
  node whose loading flag is true makes no call of \<^verbatim>\<open>onExpand\<close>, and a click calls
  \<^verbatim>\<open>onExpand\<close> (with the node's index path and title) exactly when the node has
  absent or empty \<^verbatim>\<open>subtopics\<close> and is not loading. The bound of one request in
  flight per node does not follow for the root, and the code breaks it there: the root
  has the empty index path, at which \<^verbatim>\<open>updateNodeState\<close> changes nothing, so that
  \<^verbatim>\<open>handleExpand\<close> sends the request and leaves the root without the flag. On the tree
  with topic \<open>X\<close> and no subtopics a click on the root calls \<^verbatim>\<open>onExpand([], 'X')\<close>;
  the tree after the start of \<^verbatim>\<open>handleExpand\<close> is the tree before it, the root laid
  out from it is not loading, and a second click calls \<^verbatim>\<open>onExpand([], 'X')\<close> again:
  two requests for the root are in flight. The children that an answer brings are not
  put into the tree either. For comparison, on the tree with the childless subtopics
  \<open>A\<close> and \<open>B\<close> a click on \<open>A\<close> calls \<^verbatim>\<open>onExpand([0], 'A')\<close>, after which
  \<open>A\<close> is loading and a second click on it calls nothing.
\<close>

theorem click_guard_root_unguarded:
  "(pn_isLoading node = Some True \<longrightarrow> handleNodeClick node = None) \<and>
   (handleNodeClick node = Some (pn_indexPath node, pn_title node) \<longleftrightarrow>
      (pn_subtopics node = None \<or> pn_subtopics node = Some []) \<and> pn_isLoading node \<noteq> Some True) \<and>
   (handleNodeClick node = None \<longleftrightarrow>
      \<not> ((pn_subtopics node = None \<or> pn_subtopics node = Some []) \<and> pn_isLoading node \<noteq> Some True)) \<and>
   handleNodeClick (res_store (layoutTree (treeData exRootOnly) 600 1) ! 0) = Some ([], ''X'') \<and>
   treeData (handleExpand_begin exRootOnly [] ''X'') = treeData exRootOnly \<and>
   pn_isLoading (res_store (layoutTree (treeData (handleExpand_begin exRootOnly [] ''X'')) 600 1) ! 0)
     = None \<and>
   handleNodeClick (res_store (layoutTree (treeData (handleExpand_begin exRootOnly [] ''X'')) 600 1) ! 0)
     = Some ([], ''X'') \<and>
   pending (handleExpand_begin (handleExpand_begin exRootOnly [] ''X'') [] ''X'')
     = [([], ''X''), ([], ''X'')] \<and>
   handleExpand_end (treeData (handleExpand_begin exRootOnly [] ''X'')) []
       (Some [TreeNodeData ''N'' ''n'' None None])
     = treeData exRootOnly \<and>
   handleNodeClick (res_store (layoutTree (treeData exIdle) 600 1) ! 1) = Some ([0], ''A'') \<and>
   pending (handleExpand_begin exIdle [0] ''A'') = [([0], ''A'')] \<and>
   pn_isLoading (res_store (layoutTree (treeData (handleExpand_begin exIdle [0] ''A'')) 600 1) ! 1)
     = Some True \<and>
   handleNodeClick (res_store (layoutTree (treeData (handleExpand_begin exIdle [0] ''A'')) 600 1) ! 1)
     = None"
proof -
  have g: "canExpand node = (pn_subtopics node = None \<or> pn_subtopics node = Some [])"
    by (auto simp: canExpand_def split: option.splits)
  have guard:
    "(pn_isLoading node = Some True \<longrightarrow> handleNodeClick node = None) \<and>
     (handleNodeClick node = Some (pn_indexPath node, pn_title node) \<longleftrightarrow>
        (pn_subtopics node = None \<or> pn_subtopics node = Some []) \<and> pn_isLoading node \<noteq> Some True) \<and>
     (handleNodeClick node = None \<longleftrightarrow>
        \<not> ((pn_subtopics node = None \<or> pn_subtopics node = Some []) \<and> pn_isLoading node \<noteq> Some True))"
    by (simp add: handleNodeClick_def g)
  have t: "treeData exRootOnly = Some \<lparr>topic = ''X'', tree_description = ''d'', tree_subtopics = []\<rparr>"
    by (simp add: exRootOnly_def)
  have b: "0 < nodeCount (rootDataNode \<lparr>topic = ''X'', tree_description = ''d'', tree_subtopics = []\<rparr>)"
    by (rule nodeCount_pos)
  have root:
    "handleNodeClick (res_store (layoutTree (treeData exRootOnly) 600 1) ! 0) = Some ([], ''X'') \<and>
     treeData (handleExpand_begin exRootOnly [] ''X'') = treeData exRootOnly \<and>
     pn_isLoading (res_store (layoutTree (treeData (handleExpand_begin exRootOnly [] ''X'')) 600 1) ! 0)
       = None \<and>
     handleNodeClick (res_store (layoutTree (treeData (handleExpand_begin exRootOnly [] ''X'')) 600 1) ! 0)
       = Some ([], ''X'') \<and>
     pending (handleExpand_begin (handleExpand_begin exRootOnly [] ''X'') [] ''X'')
       = [([], ''X''), ([], ''X'')] \<and>
     handleExpand_end (treeData (handleExpand_begin exRootOnly [] ''X'')) []
         (Some [TreeNodeData ''N'' ''n'' None None])
       = treeData exRootOnly"
    unfolding exRootOnly_begin exRootOnly_end layoutTree_click[OF t b] exRootOnly_click
    by simp
  have t1: "treeData exIdle = Some exTreeAB" by (rule exIdle_begin(1))
  have t2: "treeData (handleExpand_begin exIdle [0] ''A'') = Some exTree3" by (rule exIdle_begin(2))
  have sibling:
    "handleNodeClick (res_store (layoutTree (treeData exIdle) 600 1) ! 1) = Some ([0], ''A'') \<and>
     pending (handleExpand_begin exIdle [0] ''A'') = [([0], ''A'')] \<and>
     pn_isLoading (res_store (layoutTree (treeData (handleExpand_begin exIdle [0] ''A'')) 600 1) ! 1)
       = Some True \<and>
     handleNodeClick (res_store (layoutTree (treeData (handleExpand_begin exIdle [0] ''A'')) 600 1) ! 1)
       = None"
    unfolding layoutTree_click[OF t1 exIdle_count(1)] layoutTree_click[OF t2 exIdle_count(2)]
      exIdle_click exIdle_begin(3)
    by simp
  from guard root sibling show ?thesis by blast
qed

theorem click_guard_root_unguarded_witness:
  "pn_isLoading (res_store (layoutTree (Some exTree3) 600 1) ! 1) = Some True \<and>
   handleNodeClick (res_store (layoutTree (Some exTree3) 600 1) ! 1) = None \<and>
   pn_subtopics (res_store (layoutTree (Some exTreeAB) 600 1) ! 1) = Some [] \<and>
   pn_isLoading (res_store (layoutTree (Some exTreeAB) 600 1) ! 1) \<noteq> Some True \<and>
   handleNodeClick (res_store (layoutTree (Some exTreeAB) 600 1) ! 1)
     = Some (pn_indexPath (res_store (layoutTree (Some exTreeAB) 600 1) ! 1),
             pn_title (res_store (layoutTree (Some exTreeAB) 600 1) ! 1))"
proof -
  have l: "pn_isLoading (res_store (layoutTree (Some exTree3) 600 1) ! 1) = Some True"
    unfolding layoutTree_nth[OF exIdle_count(2)] using exIdle_click(2) by simp
  have "pn_subtopics (heap (rootLayout exTreeAB) ! 1) = Some []"
    "pn_isLoading (heap (rootLayout exTreeAB) ! 1) \<noteq> Some True"
    by code_simp+
  then have s: "pn_subtopics (res_store (layoutTree (Some exTreeAB) 600 1) ! 1) = Some []"
    "pn_isLoading (res_store (layoutTree (Some exTreeAB) 600 1) ! 1) \<noteq> Some True"
    using exIdle_count(1) by (simp_all add: layoutTree_nth)
  from click_guard_root_unguarded [of "res_store (layoutTree (Some exTree3) 600 1) ! 1"] l
  have a: "handleNodeClick (res_store (layoutTree (Some exTree3) 600 1) ! 1) = None"
    by blast
  from click_guard_root_unguarded [of "res_store (layoutTree (Some exTreeAB) 600 1) ! 1"] s
  have "handleNodeClick (res_store (layoutTree (Some exTreeAB) 600 1) ! 1)
     = Some (pn_indexPath (res_store (layoutTree (Some exTreeAB) 600 1) ! 1),
             pn_title (res_store (layoutTree (Some exTreeAB) 600 1) ! 1))"
    by blast
  with l a s show ?thesis by blast
qed


end
